theory Spec2Isabelle
  imports Main "HOL-Library.Word"
begin

section \<open>Save-file patch engine of the Motorsport Manager practice driver fixer\<close>

text \<open>
  A shallow embedding of \<^verbatim>\<open>SaveFixer/src/SaveFile.cpp\<close>: the container header check, the
  quote and brace aware JSON navigator, the extraction of the player team's three drivers and
  the construction of the patched output buffers.

  Conventions of the embedding.
  \<^item> A \<^verbatim>\<open>std::u8string_view\<close> is a \<^typ>\<open>string\<close> (a list of bytes); offsets and sizes
    (\<^verbatim>\<open>size_t\<close>, taken as 64 bit) are natural numbers. Where the source subtracts sizes and
    the difference can wrap, the wrap-around modulo \<open>2 ^ 64\<close> is written out (\<open>size_t_sub\<close>,
    \<open>size_t_add\<close>).
  \<^item> Every \<^verbatim>\<open>throw SaveFixerException\<close> is a value \<open>Inl e\<close> of the result type; the
    constructors of \<open>error\<close> name the messages of the source after the error taxonomy of
    the specification. \<^verbatim>\<open>std::out_of_range\<close>, thrown by \<^verbatim>\<open>substr\<close>, is \<open>StdOutOfRange\<close>.
  \<^item> \<^verbatim>\<open>json_data[i]\<close> is \<open>json ! i\<close>. Reading past the end is undefined behaviour in the
    source and unspecified in HOL; the theorems state the range of the offsets they are about.
  \<^item> A loop is a recursive function over the loop variables. The one loop of the source that
    can run forever (the forward pass of \<^verbatim>\<open>for_sibling_key_values_in_object\<close>) is defined
    with \<^theory_text>\<open>partial_function\<close>, where \<open>None\<close> stands for a call that does not return.
  \<^item> LZ4 and the file system are external; the model starts from the file bytes for the
    header and from the two decompressed buffers for everything else.
\<close>

subsection \<open>Errors and characters\<close>

datatype error =
    InvalidFormat               \<comment> \<open>"... is not a valid Motorsport Manager save file"\<close>
  | UnsupportedVersion int      \<comment> \<open>"... save file version (N) is unsupported"\<close>
  | TooLarge                    \<comment> \<open>"... save file is too large", "output too large"\<close>
  | MalformedJson               \<comment> \<open>"invalid save file" (\<^verbatim>\<open>throw_for_invalid_json\<close>)\<close>
  | SaveNameNotFound            \<comment> \<open>"could not find save name in save file"\<close>
  | PlayerTeamNotFound          \<comment> \<open>"could not find player team data in save file"\<close>
  | InvalidPositionValue        \<comment> \<open>"invalid driver position in save file"\<close>
  | InvalidDriverName           \<comment> \<open>"invalid driver name in save file"\<close>
  | DriverCountMismatch         \<comment> \<open>"unable to locate team's 3 drivers in save file"\<close>
  | InternalError               \<comment> \<open>"internal error: copy out of memory", "internal error: bad copy"\<close>
  | StdOutOfRange               \<comment> \<open>\<^verbatim>\<open>std::out_of_range\<close> of \<^verbatim>\<open>std::u8string_view::substr\<close>\<close>

abbreviation DQ :: char where "DQ \<equiv> CHR 0x22"

abbreviation BS :: char where "BS \<equiv> CHR 0x5C"

subsection \<open>Quote scanning\<close>

text \<open>
  \<^verbatim>\<open>count_preceeding_backslashes\<close>: the loop \<^verbatim>\<open>for (i = offset - 1;; --i)\<close> runs down from
  \<open>offset - 1\<close> and stops at the first byte that is not a backslash, or at offset 0.
\<close>

fun cpb_loop :: "string \<Rightarrow> nat \<Rightarrow> nat \<Rightarrow> nat" where
  "cpb_loop json offset i =
     (if json ! i \<noteq> BS then (offset - i) - 1
      else if i = 0 then offset - i
      else cpb_loop json offset (i - 1))"
declare cpb_loop.simps [simp del]

definition count_preceeding_backslashes :: "string \<Rightarrow> nat \<Rightarrow> nat" where
  "count_preceeding_backslashes json offset =
     (if offset = 0 then 0 else cpb_loop json offset (offset - 1))"

text \<open>
  \<^verbatim>\<open>find_closing_quote\<close>: the loop variables are the offset \<open>i\<close> and the flag \<open>escaped\<close>.
  A quote that is met while the flag is set falls through to the default branch.
\<close>

function fcq_loop :: "string \<Rightarrow> nat \<Rightarrow> bool \<Rightarrow> error + nat" where
  "fcq_loop json i escaped =
     (if i < length json then
        (if json ! i = BS then fcq_loop json (i + 1) (\<not> escaped)
         else if json ! i = DQ then
           (if \<not> escaped then Inr i else fcq_loop json (i + 1) False)
         else fcq_loop json (i + 1) False)
      else Inl MalformedJson)"
  by pat_completeness auto
termination
  by (relation "measure (\<lambda>(json, i, escaped). length json - i)") auto
declare fcq_loop.simps [simp del]

definition find_closing_quote :: "string \<Rightarrow> nat \<Rightarrow> error + nat" where
  "find_closing_quote json offset_of_opening_quote =
     fcq_loop json (offset_of_opening_quote + 1) False"

text \<open>
  \<^verbatim>\<open>rfind_opening_quote\<close>: after an escaped quote the offset moves to the first backslash of
  the run, and the loop's own \<^verbatim>\<open>if (i == 0) break; --i\<close> steps past it. A quote after a
  non-empty even run of backslashes throws.
\<close>

function roq_loop :: "string \<Rightarrow> nat \<Rightarrow> error + nat" where
  "roq_loop json i =
     (if json ! i = DQ then
        (let escape_count = count_preceeding_backslashes json i in
         if escape_count = 0 then Inr i
         else if escape_count mod 2 = 1 then
           (let i' = i - escape_count in
            if i' = 0 then Inl MalformedJson else roq_loop json (i' - 1))
         else Inl MalformedJson)
      else if i = 0 then Inl MalformedJson
      else roq_loop json (i - 1))"
  by pat_completeness auto
termination
  by (relation "measure (\<lambda>(json, i). i)") auto
declare roq_loop.simps [simp del]

definition rfind_opening_quote :: "string \<Rightarrow> nat \<Rightarrow> error + nat" where
  "rfind_opening_quote json offset_of_closing_quote =
     (if offset_of_closing_quote \<noteq> 0 then roq_loop json (offset_of_closing_quote - 1)
      else Inl MalformedJson)"

text \<open>
  Both scans move strictly away from their start; the brace walks below terminate for
  that reason.
\<close>

lemma fcq_loop_bounds:
  "fcq_loop json i escaped = Inr q \<Longrightarrow> i \<le> q \<and> q < length json"
proof (induction json i escaped rule: fcq_loop.induct)
  case (1 json i escaped)
  from "1.prems" have len: "i < length json"
    by (subst (asm) fcq_loop.simps) (auto split: if_splits)
  from "1.prems" len "1.IH" show ?case
    by (subst (asm) fcq_loop.simps) (auto split: if_splits)
qed

lemma find_closing_quote_bounds:
  "find_closing_quote json i = Inr q \<Longrightarrow> i < q \<and> q < length json"
  using fcq_loop_bounds [of json "i + 1" False q] by (simp add: find_closing_quote_def)

lemma roq_loop_le: "roq_loop json i = Inr q \<Longrightarrow> q \<le> i"
proof (induction json i rule: roq_loop.induct)
  case (1 json i)
  let ?n = "count_preceeding_backslashes json i"
  show ?case
  proof (cases "json ! i = DQ")
    case quote: True
    show ?thesis
    proof (cases "?n = 0")
      case True
      with "1.prems" quote show ?thesis
        by (subst (asm) roq_loop.simps) simp
    next
      case nz: False
      from "1.prems" quote nz have odd: "?n mod 2 = 1" and nz': "i - ?n \<noteq> 0"
        and rec: "roq_loop json (i - ?n - 1) = Inr q"
        by (subst (asm) roq_loop.simps, simp add: Let_def split: if_splits)+
      from "1.IH"(1) [OF quote refl nz odd refl nz' rec] have "q \<le> i - ?n - 1" .
      then show ?thesis by arith
    qed
  next
    case other: False
    from "1.prems" other have nz: "i \<noteq> 0" and rec: "roq_loop json (i - 1) = Inr q"
      by (subst (asm) roq_loop.simps, simp split: if_splits)+
    from "1.IH"(2) [OF other nz rec] show ?thesis by arith
  qed
qed

lemma rfind_opening_quote_less:
  "rfind_opening_quote json i = Inr q \<Longrightarrow> q < i"
  using roq_loop_le [of json "i - 1" q] by (auto simp: rfind_opening_quote_def split: if_splits)

subsection \<open>Brace matching\<close>

text \<open>
  The \<^verbatim>\<open>std::vector\<close> of expected braces is never empty inside the loops, so it is kept as
  its last element \<open>tos\<close> (\<^verbatim>\<open>back()\<close>) and the list \<open>rest\<close> of the elements below it. The two
  counters \<^verbatim>\<open>closing_brace_stack_after_push\<close> and \<^verbatim>\<open>closing_brace_stack_after_pop\<close> of
  \<^verbatim>\<open>find_closing_brace\<close> are written and never read; they are left out.
\<close>

abbreviation closer_of :: "char \<Rightarrow> char" where
  "closer_of c \<equiv> (if c = CHR ''{'' then CHR ''}'' else CHR '']'')"

abbreviation opener_of :: "char \<Rightarrow> char" where
  "opener_of c \<equiv> (if c = CHR ''}'' then CHR ''{'' else CHR ''['')"

function fcb_loop :: "string \<Rightarrow> nat \<Rightarrow> char \<Rightarrow> char list \<Rightarrow> error + nat" where
  "fcb_loop json i tos rest =
     (if i < length json then
        (if json ! i = DQ then
           (case find_closing_quote json i of
              Inl e \<Rightarrow> Inl e
            | Inr q \<Rightarrow> fcb_loop json (q + 1) tos rest)
         else if json ! i = CHR ''{'' \<or> json ! i = CHR ''['' then
           fcb_loop json (i + 1) (closer_of (json ! i)) (tos # rest)
         else if json ! i = CHR ''}'' \<or> json ! i = CHR '']'' then
           (if json ! i = tos then
              (case rest of [] \<Rightarrow> Inr i | t # r \<Rightarrow> fcb_loop json (i + 1) t r)
            else Inl MalformedJson)
         else fcb_loop json (i + 1) tos rest)
      else Inl MalformedJson)"
  by pat_completeness auto
termination
  by (relation "measure (\<lambda>(json, i, tos, rest). length json - i)")
    (auto dest: find_closing_quote_bounds)
declare fcb_loop.simps [simp del]

definition find_closing_brace :: "string \<Rightarrow> nat \<Rightarrow> char \<Rightarrow> error + nat" where
  "find_closing_brace json starting_offset brace = fcb_loop json starting_offset brace []"

function rob_loop :: "string \<Rightarrow> nat \<Rightarrow> char \<Rightarrow> char list \<Rightarrow> error + nat" where
  "rob_loop json i tos rest =
     (if json ! i = DQ then
        (case rfind_opening_quote json i of
           Inl e \<Rightarrow> Inl e
         | Inr q \<Rightarrow> if q = 0 then Inl MalformedJson else rob_loop json (q - 1) tos rest)
      else if json ! i = CHR ''}'' \<or> json ! i = CHR '']'' then
        (if i = 0 then Inl MalformedJson
         else rob_loop json (i - 1) (opener_of (json ! i)) (tos # rest))
      else if json ! i = CHR ''{'' \<or> json ! i = CHR ''['' then
        (if json ! i = tos then
           (case rest of
              [] \<Rightarrow> Inr i
            | t # r \<Rightarrow> if i = 0 then Inl MalformedJson else rob_loop json (i - 1) t r)
         else Inl MalformedJson)
      else if i = 0 then Inl MalformedJson
      else rob_loop json (i - 1) tos rest)"
  by pat_completeness auto
termination
  by (relation "measure (\<lambda>(json, i, tos, rest). i)")
    (auto dest: rfind_opening_quote_less)
declare rob_loop.simps [simp del]

definition rfind_opening_brace :: "string \<Rightarrow> nat \<Rightarrow> char \<Rightarrow> error + nat" where
  "rfind_opening_brace json starting_offset brace = rob_loop json starting_offset brace []"

text \<open>
  \<^verbatim>\<open>find_matching_brace\<close>: the branch for an opening brace has no \<^verbatim>\<open>break\<close>. When the
  brace is the last byte of the buffer, control falls through into the branch for closing
  braces, which searches backward for \<^verbatim>\<open>[\<close> (the byte is not \<^verbatim>\<open>}\<close>).
\<close>

definition find_matching_brace :: "string \<Rightarrow> nat \<Rightarrow> error + nat" where
  "find_matching_brace json offset_of_brace =
     (if (json ! offset_of_brace = CHR ''{'' \<or> json ! offset_of_brace = CHR ''['')
         \<and> offset_of_brace + 1 < length json then
        find_closing_brace json (offset_of_brace + 1) (closer_of (json ! offset_of_brace))
      else if json ! offset_of_brace = CHR ''{'' \<or> json ! offset_of_brace = CHR ''[''
           \<or> json ! offset_of_brace = CHR ''}'' \<or> json ! offset_of_brace = CHR '']'' then
        (if offset_of_brace \<noteq> 0 then
           rfind_opening_brace json (offset_of_brace - 1) (opener_of (json ! offset_of_brace))
         else Inl MalformedJson)
      else Inl MalformedJson)"

lemma rob_loop_result:
  "rob_loop json i tos rest = Inr c \<Longrightarrow>
   c \<le> i \<and> (json ! c = CHR ''{'' \<or> json ! c = CHR ''['')"
proof (induction json i tos rest rule: rob_loop.induct)
  case (1 json i tos rest)
  show ?case
  proof (cases "json ! i = DQ")
    case True
    with "1.prems" obtain q where rq: "rfind_opening_quote json i = Inr q"
      and nz: "q \<noteq> 0" and rec: "rob_loop json (q - 1) tos rest = Inr c"
      by (subst (asm) rob_loop.simps) (auto split: sum.splits if_splits)
    from "1.IH"(1) [OF True rq nz rec] rfind_opening_quote_less [OF rq]
    show ?thesis by auto
  next
    case nq: False
    show ?thesis
    proof (cases "json ! i = CHR ''}'' \<or> json ! i = CHR '']''")
      case True
      with "1.prems" nq have nz: "i \<noteq> 0"
        and rec: "rob_loop json (i - 1) (opener_of (json ! i)) (tos # rest) = Inr c"
        by (subst (asm) rob_loop.simps, simp split: if_splits)+
      from "1.IH"(2) [OF nq True nz rec] show ?thesis by auto
    next
      case nc: False
      show ?thesis
      proof (cases "json ! i = CHR ''{'' \<or> json ! i = CHR ''[''")
        case True
        show ?thesis
        proof (cases rest)
          case Nil
          with "1.prems" nq nc True have "c = i"
            by (subst (asm) rob_loop.simps) (simp split: if_splits)
          with True show ?thesis by auto
        next
          case (Cons t r)
          with "1.prems" nq nc True have m: "json ! i = tos" and nz: "i \<noteq> 0"
            and rec: "rob_loop json (i - 1) t r = Inr c"
            by (subst (asm) rob_loop.simps, simp split: if_splits)+
          from "1.IH"(3) [OF nq nc True m Cons nz rec] show ?thesis by auto
        qed
      next
        case False
        with "1.prems" nq nc have nz: "i \<noteq> 0" and rec: "rob_loop json (i - 1) tos rest = Inr c"
          by (subst (asm) rob_loop.simps, simp split: if_splits)+
        from "1.IH"(4) [OF nq nc False nz rec] show ?thesis by auto
      qed
    qed
  qed
qed

subsection \<open>Enumerating the key/value pairs of an object\<close>

text \<open>
  \<^verbatim>\<open>string_view_between(s, a, b)\<close> is \<^verbatim>\<open>s.substr(a + 1, (b - a) - 1)\<close>; every caller passes
  two quote offsets \<open>a < b\<close> inside the buffer, so \<^verbatim>\<open>substr\<close> does not throw there.

  A callback of the source captures variables by reference and returns \<^verbatim>\<open>bool\<close>; here it
  takes the captured state and returns the flag with the new state, or the error it throws.
\<close>

definition string_view_between :: "string \<Rightarrow> nat \<Rightarrow> nat \<Rightarrow> string" where
  "string_view_between s a b = take ((b - a) - 1) (drop (a + 1) s)"

type_synonym 's key_value_callback = "string \<Rightarrow> string \<Rightarrow> nat \<Rightarrow> 's \<Rightarrow> error + (bool \<times> 's)"

text \<open>
  The two lambdas of \<^verbatim>\<open>for_sibling_key_values_in_object\<close> that skip a value: forward from
  its first byte to its last (\<open>value_end_pos\<close>), and backward from the comma behind it to its
  first byte (\<open>value_start_pos\<close>).
\<close>

function scan_value_end :: "string \<Rightarrow> nat \<Rightarrow> error + nat" where
  "scan_value_end json j =
     (if j < length json then
        (if json ! j = CHR '','' \<or> json ! j = CHR ''}'' then Inr (j - 1)
         else scan_value_end json (j + 1))
      else Inl MalformedJson)"
  by pat_completeness auto
termination
  by (relation "measure (\<lambda>(json, j). length json - j)") auto
declare scan_value_end.simps [simp del]

definition value_end_pos :: "string \<Rightarrow> nat \<Rightarrow> error + nat" where
  "value_end_pos json value_start_pos =
     (if json ! value_start_pos = DQ then find_closing_quote json value_start_pos
      else if json ! value_start_pos = CHR ''{'' \<or> json ! value_start_pos = CHR ''[''
        then find_matching_brace json value_start_pos
      else scan_value_end json (value_start_pos + 1))"

fun scan_value_start :: "string \<Rightarrow> nat \<Rightarrow> error + nat" where
  "scan_value_start json j =
     (if j \<noteq> 0 then
        (if json ! (j - 1) = CHR '':'' then Inr j else scan_value_start json (j - 1))
      else Inl MalformedJson)"
declare scan_value_start.simps [simp del]

definition value_start_pos :: "string \<Rightarrow> nat \<Rightarrow> error + nat" where
  "value_start_pos json i =
     (let value_end_pos = i - 1 in
      if json ! value_end_pos = DQ then rfind_opening_quote json value_end_pos
      else if json ! value_end_pos = CHR ''}'' \<or> json ! value_end_pos = CHR '']''
        then find_matching_brace json value_end_pos
      else scan_value_start json value_end_pos)"

text \<open>
  The forward pass over the keys on and after \<open>start_offset\<close>. The flag of the result is
  \<open>False\<close> when the callback stopped the walk. Nothing forces the next offset to lie behind the
  current one (\<open>find_matching_brace\<close> can return an earlier offset, see above), so this loop
  need not terminate.
\<close>

partial_function (option) sibling_keys_forward ::
  "'s key_value_callback \<Rightarrow> string \<Rightarrow> nat \<Rightarrow> 's \<Rightarrow> (error + bool \<times> 's) option" where
  "sibling_keys_forward callback json i st =
     (if i < length json \<and> json ! i = DQ then
        (case find_closing_quote json i of
           Inl e \<Rightarrow> Some (Inl e)
         | Inr key_end_quote_pos \<Rightarrow>
             if key_end_quote_pos + 2 \<ge> length json \<or> json ! (key_end_quote_pos + 1) \<noteq> CHR '':''
             then Some (Inl MalformedJson)
             else
               (case callback json (string_view_between json i key_end_quote_pos)
                       (key_end_quote_pos + 2) st of
                  Inl e \<Rightarrow> Some (Inl e)
                | Inr (continue, st') \<Rightarrow>
                    if \<not> continue then Some (Inr (False, st'))
                    else
                      (case value_end_pos json (key_end_quote_pos + 2) of
                         Inl e \<Rightarrow> Some (Inl e)
                       | Inr value_end \<Rightarrow>
                           sibling_keys_forward callback json
                             (if value_end + 1 < length json \<and> json ! (value_end + 1) = CHR '',''
                              then value_end + 2 else value_end + 1) st')))
      else Some (Inr (True, st)))"
declare sibling_keys_forward.simps [code]

text \<open>
  The backward pass over the keys before \<open>start_offset\<close>; its offset strictly decreases.
\<close>

lemma scan_value_start_le: "scan_value_start json j = Inr v \<Longrightarrow> v \<le> j"
proof (induction json j rule: scan_value_start.induct)
  case (1 json j)
  show ?case
  proof (cases "json ! (j - 1) = CHR '':''")
    case True
    with "1.prems" show ?thesis
      by (subst (asm) scan_value_start.simps) (simp split: if_splits)
  next
    case False
    with "1.prems" have nz: "j \<noteq> 0" and rec: "scan_value_start json (j - 1) = Inr v"
      by (subst (asm) scan_value_start.simps, simp split: if_splits)+
    from "1.IH" [OF nz False rec] show ?thesis by arith
  qed
qed

lemma find_matching_brace_closing_less:
  assumes "find_matching_brace json i = Inr v" "json ! i = CHR ''}'' \<or> json ! i = CHR '']''"
  shows "v < i"
proof -
  from assms have nz: "i \<noteq> 0" and r: "rob_loop json (i - 1) (opener_of (json ! i)) [] = Inr v"
    by (auto simp: find_matching_brace_def rfind_opening_brace_def split: if_splits)
  from rob_loop_result [OF r] nz show ?thesis by arith
qed

lemma value_start_pos_le: "value_start_pos json i = Inr v \<Longrightarrow> v \<le> i - 1"
  unfolding value_start_pos_def Let_def
  by (auto split: if_splits dest: rfind_opening_quote_less scan_value_start_le
      find_matching_brace_closing_less less_imp_le)

function sibling_keys_backward ::
  "'s key_value_callback \<Rightarrow> string \<Rightarrow> nat \<Rightarrow> 's \<Rightarrow> error + 's" where
  "sibling_keys_backward callback json i st =
     (if i \<noteq> 0 \<and> json ! i \<noteq> CHR ''{'' then
        (if json ! i \<noteq> CHR '','' then Inl MalformedJson
         else
           (case value_start_pos json i of
              Inl e \<Rightarrow> Inl e
            | Inr value_start \<Rightarrow>
                if value_start < 3 \<or> json ! (value_start - 1) \<noteq> CHR '':''
                   \<or> json ! (value_start - 2) \<noteq> DQ
                then Inl MalformedJson
                else
                  (case rfind_opening_quote json (value_start - 2) of
                     Inl e \<Rightarrow> Inl e
                   | Inr key_start_quote_pos \<Rightarrow>
                       if key_start_quote_pos = 0 then Inl MalformedJson
                       else
                         (case callback json
                                 (string_view_between json key_start_quote_pos (value_start - 2))
                                 value_start st of
                            Inl e \<Rightarrow> Inl e
                          | Inr (continue, st') \<Rightarrow>
                              if \<not> continue then Inr st'
                              else sibling_keys_backward callback json
                                     (key_start_quote_pos - 1) st'))))
      else Inr st)"
  by pat_completeness auto
termination
proof (relation "measure (\<lambda>(callback, json, i, st). i)", goal_cases)
  case 1
  show ?case by simp
next
  case (2 callback json i st value_start key_start_quote_pos r continue st')
  from value_start_pos_le [OF 2(3)] rfind_opening_quote_less [OF 2(5)] 2(1)
  show ?case by simp
qed
declare sibling_keys_backward.simps [simp del]

text \<open>
  The backward pass starts at \<^verbatim>\<open>start_offset - 1\<close>. Both callers pass an offset of at least 1
  (the byte behind an opening brace, and an offset checked to be positive), so the
  subtraction does not wrap.
\<close>

definition for_sibling_key_values_in_object ::
  "string \<Rightarrow> nat \<Rightarrow> 's key_value_callback \<Rightarrow> 's \<Rightarrow> (error + 's) option" where
  "for_sibling_key_values_in_object json start_offset callback st =
     (case sibling_keys_forward callback json start_offset st of
        None \<Rightarrow> None
      | Some (Inl e) \<Rightarrow> Some (Inl e)
      | Some (Inr (continue, st')) \<Rightarrow>
          if continue then Some (sibling_keys_backward callback json (start_offset - 1) st')
          else Some (Inr st'))"

definition for_key_values_in_object ::
  "string \<Rightarrow> nat \<Rightarrow> 's key_value_callback \<Rightarrow> 's \<Rightarrow> (error + 's) option" where
  "for_key_values_in_object json object_opening_brace_offset callback st =
     (let start_pos = object_opening_brace_offset + 1 in
      if start_pos < length json then
        (if json ! start_pos = DQ then
           for_sibling_key_values_in_object json start_pos callback st
         else if json ! start_pos = CHR ''}'' then Some (Inr st)
         else Some (Inl MalformedJson))
      else Some (Inl MalformedJson))"

definition lookup_value_in_object :: "string \<Rightarrow> nat \<Rightarrow> string \<Rightarrow> (error + nat option) option" where
  "lookup_value_in_object json object_opening_brace_offset sought_key =
     for_key_values_in_object json object_opening_brace_offset
       (\<lambda>json key value_offset value_pos.
          if key = sought_key then Inr (False, Some value_offset) else Inr (True, value_pos))
       None"

subsection \<open>Semantic extraction\<close>

text \<open>
  \<^verbatim>\<open>std::u8string_view::find(pattern, pos)\<close>, a function of the standard library: the
  first offset from \<open>pos\<close> on at which \<open>pattern\<close> occurs, \<open>None\<close> for \<^verbatim>\<open>npos\<close>.
\<close>

primrec first_occurrence :: "string \<Rightarrow> string \<Rightarrow> nat \<Rightarrow> nat option" where
  "first_occurrence pattern [] pos = (if pattern = [] then Some pos else None)"
| "first_occurrence pattern (c # cs) pos =
     (if take (length pattern) (c # cs) = pattern then Some pos
      else first_occurrence pattern cs (pos + 1))"

definition find_from :: "string \<Rightarrow> string \<Rightarrow> nat \<Rightarrow> nat option" where
  "find_from s pattern pos =
     (if pos > length s then None else first_occurrence pattern (drop pos s) pos)"

lemma first_occurrence_bounds:
  "first_occurrence pattern cs pos = Some p \<Longrightarrow>
   pos \<le> p \<and> p + length pattern \<le> pos + length cs"
proof (induction cs arbitrary: pos)
  case Nil
  then show ?case by (simp split: if_splits)
next
  case (Cons c cs)
  show ?case
  proof (cases "take (length pattern) (c # cs) = pattern")
    case True
    have "length pattern \<le> length (c # cs)"
      using arg_cong [OF True, of length] by simp
    with True Cons.prems show ?thesis by simp
  next
    case False
    with Cons.prems have "first_occurrence pattern cs (pos + 1) = Some p" by simp
    from Cons.IH [OF this] show ?thesis by simp
  qed
qed

lemma find_from_bounds:
  "find_from s pattern pos = Some p \<Longrightarrow> pos \<le> p \<and> p + length pattern \<le> length s"
  by (auto simp: find_from_def split: if_splits dest!: first_occurrence_bounds)

datatype DriverPosition = reserve | car1 | car2

record Driver =
  name :: string
  position :: DriverPosition
  original_position :: DriverPosition
  car_id_file_offset :: nat

definition new_Driver :: "string \<Rightarrow> DriverPosition \<Rightarrow> nat \<Rightarrow> Driver" where
  "new_Driver driver_name pos offset =
     \<lparr>name = driver_name, position = pos, original_position = pos, car_id_file_offset = offset\<rparr>"

definition save_info_obj_start :: string where
  "save_info_obj_start = [DQ] @ ''saveInfo'' @ [DQ] @ '':{''"

definition get_save_name :: "string \<Rightarrow> (error + nat \<times> nat) option" where
  "get_save_name save_info =
     (case find_from save_info save_info_obj_start 0 of
        None \<Rightarrow> Some (Inl SaveNameNotFound)
      | Some save_info_key_start \<Rightarrow>
          (case lookup_value_in_object save_info
                  (save_info_key_start + length save_info_obj_start - 1) ''name'' of
             None \<Rightarrow> None
           | Some (Inl e) \<Rightarrow> Some (Inl e)
           | Some (Inr None) \<Rightarrow> Some (Inl SaveNameNotFound)
           | Some (Inr (Some name_value_pos)) \<Rightarrow>
               if save_info ! name_value_pos = DQ then
                 (case find_closing_quote save_info name_value_pos of
                    Inl e \<Rightarrow> Some (Inl e)
                  | Inr name_closing_quote \<Rightarrow>
                      Some (Inr (name_value_pos + 1, name_closing_quote - (name_value_pos + 1))))
               else Some (Inl SaveNameNotFound)))"

definition player_team_obj_start :: string where
  "player_team_obj_start = [DQ] @ ''mPlayerTeam'' @ [DQ] @ '':{''"

definition get_player_team_id :: "string \<Rightarrow> (error + string) option" where
  "get_player_team_id json =
     (case find_from json player_team_obj_start 0 of
        None \<Rightarrow> Some (Inl PlayerTeamNotFound)
      | Some player_team_key_start \<Rightarrow>
          (case lookup_value_in_object json
                  (player_team_key_start + length player_team_obj_start - 1) ''$id'' of
             None \<Rightarrow> None
           | Some (Inl e) \<Rightarrow> Some (Inl e)
           | Some (Inr None) \<Rightarrow> Some (Inl PlayerTeamNotFound)
           | Some (Inr (Some id_value_pos)) \<Rightarrow>
               if json ! id_value_pos = DQ then
                 (case find_closing_quote json id_value_pos of
                    Inl e \<Rightarrow> Some (Inl e)
                  | Inr value_closing_quote \<Rightarrow>
                      Some (Inr (string_view_between json id_value_pos value_closing_quote)))
               else Some (Inl PlayerTeamNotFound)))"

text \<open>
  \<^verbatim>\<open>for_each_employeer_team_ref\<close> searches the next occurrence from the offset behind the
  last one and calls \<open>f\<close> on each; \<open>f\<close> does not change the search. The offsets are
  collected first, then \<open>f\<close> runs over them in order and the first error ends the walk.
\<close>

definition employeer_team_ref_str :: "string \<Rightarrow> string" where
  "employeer_team_ref_str team_id =
     [DQ] @ ''mEmployeerTeam'' @ [DQ] @ '':{'' @ [DQ] @ ''$ref'' @ [DQ] @ '':'' @ [DQ]
       @ team_id @ [DQ] @ ''}''"

function employeer_team_ref_offsets :: "string \<Rightarrow> string \<Rightarrow> nat \<Rightarrow> nat list" where
  "employeer_team_ref_offsets json employeer_team_ref start_pos =
     (case find_from json employeer_team_ref start_pos of
        None \<Rightarrow> []
      | Some ref_pos \<Rightarrow> ref_pos # employeer_team_ref_offsets json employeer_team_ref (ref_pos + 1))"
  by pat_completeness auto
termination
  by (relation "measure (\<lambda>(json, pat, start_pos). length json + 1 - start_pos)")
    (auto dest!: find_from_bounds)
declare employeer_team_ref_offsets.simps [simp del]

fun for_each_offset ::
  "(nat \<Rightarrow> 's \<Rightarrow> (error + 's) option) \<Rightarrow> nat list \<Rightarrow> 's \<Rightarrow> (error + 's) option" where
  "for_each_offset f [] st = Some (Inr st)"
| "for_each_offset f (ref_pos # later) st =
     (case f ref_pos st of
        None \<Rightarrow> None
      | Some (Inl e) \<Rightarrow> Some (Inl e)
      | Some (Inr st') \<Rightarrow> for_each_offset f later st')"

definition for_each_employeer_team_ref ::
  "string \<Rightarrow> string \<Rightarrow> (nat \<Rightarrow> 's \<Rightarrow> (error + 's) option) \<Rightarrow> 's \<Rightarrow> (error + 's) option" where
  "for_each_employeer_team_ref json team_id f st =
     for_each_offset f (employeer_team_ref_offsets json (employeer_team_ref_str team_id) 0) st"

definition contract_key :: string where
  "contract_key = [DQ] @ ''contract'' @ [DQ] @ '':''"

definition find_employeer_team_ref_contract_offset :: "string \<Rightarrow> nat \<Rightarrow> error + nat option" where
  "find_employeer_team_ref_contract_offset json employeer_team_ref_offset =
     (if employeer_team_ref_offset \<noteq> 0 then
        (case rfind_opening_brace json (employeer_team_ref_offset - 1) CHR ''{'' of
           Inl e \<Rightarrow> Inl e
         | Inr object_start_pos \<Rightarrow>
             if object_start_pos > length contract_key \<and>
                take (length contract_key) (drop (object_start_pos - length contract_key) json)
                  = contract_key
             then Inr (Some (object_start_pos - length contract_key))
             else Inr None)
      else Inr None)"

definition parse_driver_position :: "string \<Rightarrow> nat \<Rightarrow> error + DriverPosition" where
  "parse_driver_position json value_offset =
     (if value_offset + 2 < length json then
        (if json ! value_offset = CHR ''-'' \<and> json ! (value_offset + 1) = CHR ''1'' \<and>
            (json ! (value_offset + 2) = CHR '','' \<or> json ! (value_offset + 2) = CHR ''}'')
         then Inr reserve
         else if json ! value_offset = CHR ''0'' \<and>
            (json ! (value_offset + 1) = CHR '','' \<or> json ! (value_offset + 1) = CHR ''}'')
         then Inr car1
         else if json ! value_offset = CHR ''1'' \<and>
            (json ! (value_offset + 1) = CHR '','' \<or> json ! (value_offset + 1) = CHR ''}'')
         then Inr car2
         else Inl InvalidPositionValue)
      else Inl MalformedJson)"

definition parse_driver_name_string :: "string \<Rightarrow> nat \<Rightarrow> error + string" where
  "parse_driver_name_string json value_offset =
     (if json ! value_offset = DQ then
        (case find_closing_quote json value_offset of
           Inl e \<Rightarrow> Inl e
         | Inr closing \<Rightarrow> Inr (string_view_between json value_offset closing))
      else Inl InvalidDriverName)"

text \<open>
  \<^verbatim>\<open>maybe_get_driver\<close>: the lambda captures \<^verbatim>\<open>car_id_pos\<close>, \<^verbatim>\<open>first_name\<close> and
  \<^verbatim>\<open>last_name\<close>; it asks to continue until all three have a value.
\<close>

type_synonym driver_fields = "nat option \<times> string option \<times> string option"

definition driver_fields_complete :: "driver_fields \<Rightarrow> bool" where
  "driver_fields_complete st =
     (case st of (car_id_pos, first_name, last_name) \<Rightarrow>
        car_id_pos \<noteq> None \<and> first_name \<noteq> None \<and> last_name \<noteq> None)"

definition driver_fields_callback :: "driver_fields key_value_callback" where
  "driver_fields_callback json key value_offset st =
     (case st of (car_id_pos, first_name, last_name) \<Rightarrow>
        (case
           (if key = ''mCarID'' then Inr (Some value_offset, first_name, last_name)
            else if key = ''mFirstName'' then
              (case parse_driver_name_string json value_offset of
                 Inl e \<Rightarrow> Inl e
               | Inr n \<Rightarrow> Inr (car_id_pos, Some n, last_name))
            else if key = ''mLastName'' then
              (case parse_driver_name_string json value_offset of
                 Inl e \<Rightarrow> Inl e
               | Inr n \<Rightarrow> Inr (car_id_pos, first_name, Some n))
            else Inr st)
         of Inl e \<Rightarrow> Inl e
          | Inr st' \<Rightarrow> Inr (\<not> driver_fields_complete st', st')))"

definition maybe_get_driver :: "string \<Rightarrow> nat \<Rightarrow> (error + Driver option) option" where
  "maybe_get_driver json contract_key_offset =
     (case for_sibling_key_values_in_object json contract_key_offset driver_fields_callback
             (None, None, None) of
        None \<Rightarrow> None
      | Some (Inl e) \<Rightarrow> Some (Inl e)
      | Some (Inr (Some car_id_pos, Some first_name, Some last_name)) \<Rightarrow>
          (case parse_driver_position json car_id_pos of
             Inl e \<Rightarrow> Some (Inl e)
           | Inr pos \<Rightarrow>
               Some (Inr (Some (new_Driver (first_name @ '' '' @ last_name) pos car_id_pos))))
      | Some (Inr _) \<Rightarrow> Some (Inr None))"

text \<open>
  \<^verbatim>\<open>get_driver_data_from_json\<close>: \<open>collect_driver\<close> is the lambda passed to
  \<^verbatim>\<open>for_each_employeer_team_ref\<close>, with \<^verbatim>\<open>found_drivers\<close> as its state. \<^verbatim>\<open>std::sort\<close> is
  not stable; \<open>sort_key\<close> returns one of the orders it may produce, and the theorems only use
  that the result is sorted and a permutation.
\<close>

definition collect_driver :: "string \<Rightarrow> nat \<Rightarrow> Driver list \<Rightarrow> (error + Driver list) option" where
  "collect_driver json employeer_team_ref_offset found_drivers =
     (case find_employeer_team_ref_contract_offset json employeer_team_ref_offset of
        Inl e \<Rightarrow> Some (Inl e)
      | Inr None \<Rightarrow> Some (Inr found_drivers)
      | Inr (Some contract_key_offset) \<Rightarrow>
          (case maybe_get_driver json contract_key_offset of
             None \<Rightarrow> None
           | Some (Inl e) \<Rightarrow> Some (Inl e)
           | Some (Inr None) \<Rightarrow> Some (Inr found_drivers)
           | Some (Inr (Some d)) \<Rightarrow> Some (Inr (found_drivers @ [d]))))"

definition get_driver_data_from_json :: "string \<Rightarrow> (error + Driver list) option" where
  "get_driver_data_from_json save_data =
     (case get_player_team_id save_data of
        None \<Rightarrow> None
      | Some (Inl e) \<Rightarrow> Some (Inl e)
      | Some (Inr player_team_id) \<Rightarrow>
          (case for_each_employeer_team_ref save_data player_team_id (collect_driver save_data) [] of
             None \<Rightarrow> None
           | Some (Inl e) \<Rightarrow> Some (Inl e)
           | Some (Inr found_drivers) \<Rightarrow>
               if length found_drivers \<noteq> 3 then Some (Inl DriverCountMismatch)
               else Some (Inr (sort_key car_id_file_offset found_drivers))))"

subsection \<open>Container header\<close>

text \<open>
  The header is six little-endian 32-bit signed integers, read in place from the first 24
  bytes of the file.
\<close>

type_synonym byte = "8 word"

definition read_int :: "byte list \<Rightarrow> nat \<Rightarrow> int" where
  "read_int bytes off =
     (let u = uint (bytes ! off) + 256 * uint (bytes ! (off + 1))
              + 65536 * uint (bytes ! (off + 2)) + 16777216 * uint (bytes ! (off + 3))
      in if u < 2 ^ 31 then u else u - 2 ^ 32)"

record SaveFileHeader =
  magic :: int
  version :: int
  compressed_info_size :: int
  decompressed_info_size :: int
  compressed_data_size :: int
  decompressed_data_size :: int

definition mm_save_file_magic :: int where "mm_save_file_magic = 1932684653"

definition mm_save_file_supported_version :: int where "mm_save_file_supported_version = 4"

definition max_decompressed_buffer_size :: nat where
  "max_decompressed_buffer_size = 4 * 1024 * 1024 * 1024"

definition sizeof_SaveFileHeader :: nat where "sizeof_SaveFileHeader = 24"

definition header_at :: "byte list \<Rightarrow> SaveFileHeader" where
  "header_at file_data =
     \<lparr>magic = read_int file_data 0,
      version = read_int file_data 4,
      compressed_info_size = read_int file_data 8,
      decompressed_info_size = read_int file_data 12,
      compressed_data_size = read_int file_data 16,
      decompressed_data_size = read_int file_data 20\<rparr>"

definition read_save_file_header :: "byte list \<Rightarrow> error + SaveFileHeader" where
  "read_save_file_header file_data =
     (if length file_data < sizeof_SaveFileHeader then Inl InvalidFormat
      else
        (let header = header_at file_data in
         if magic header \<noteq> mm_save_file_magic \<or> compressed_info_size header \<le> 0 \<or>
            decompressed_info_size header \<le> 0 \<or> compressed_data_size header \<le> 0 \<or>
            decompressed_data_size header \<le> 0
         then Inl InvalidFormat
         else if version header \<noteq> mm_save_file_supported_version
         then Inl (UnsupportedVersion (version header))
         else if nat (decompressed_info_size header) + nat (decompressed_data_size header)
                   > max_decompressed_buffer_size
         then Inl TooLarge
         else Inr header))"

subsection \<open>Building the patched buffers\<close>

text \<open>
  \<^verbatim>\<open>size_t\<close> arithmetic, and the two uses of \<^verbatim>\<open>substr\<close>: with a count, which is clamped
  to the end of the view, and without.
\<close>

definition size_t_add :: "nat \<Rightarrow> nat \<Rightarrow> nat" where
  "size_t_add a b = (a + b) mod 2 ^ 64"

definition size_t_sub :: "nat \<Rightarrow> nat \<Rightarrow> nat" where
  "size_t_sub a b = nat ((int a - int b) mod 2 ^ 64)"

definition substr :: "string \<Rightarrow> nat \<Rightarrow> nat \<Rightarrow> error + string" where
  "substr s pos count = (if pos > length s then Inl StdOutOfRange else Inr (take count (drop pos s)))"

definition substr_from :: "string \<Rightarrow> nat \<Rightarrow> error + string" where
  "substr_from s pos = (if pos > length s then Inl StdOutOfRange else Inr (drop pos s))"

definition get_position_as_json_value :: "DriverPosition \<Rightarrow> string" where
  "get_position_as_json_value p = (case p of reserve \<Rightarrow> ''-1'' | car1 \<Rightarrow> ''0'' | car2 \<Rightarrow> ''1'')"

text \<open>
  \<^verbatim>\<open>create_uncompressed_output_buffer\<close> computes the two sizes and allocates; the model
  returns the sizes. \<open>data_out_size\<close> is the lambda of that name.
\<close>

definition data_out_size :: "nat \<Rightarrow> Driver list \<Rightarrow> nat" where
  "data_out_size original_size drivers =
     fold (\<lambda>d size.
             size_t_add (size_t_sub size (length (get_position_as_json_value (original_position d))))
               (length (get_position_as_json_value (position d))))
          drivers original_size"

definition create_uncompressed_output_buffer ::
  "string \<Rightarrow> string \<Rightarrow> nat \<Rightarrow> string \<Rightarrow> Driver list \<Rightarrow> nat \<times> nat" where
  "create_uncompressed_output_buffer original_save_info original_save_data
       original_save_name_size new_save_name drivers =
     (size_t_add (size_t_sub (length original_save_info) original_save_name_size)
        (length new_save_name),
      data_out_size (length original_save_data) drivers)"

text \<open>
  A remaining output span is the bytes written so far together with the capacity left.
  \<^verbatim>\<open>copy_to_buffer\<close> throws when the capacity is too small. \<open>copy_drivers\<close> is the loop over
  the drivers; its state is \<^verbatim>\<open>not_copied_offset\<close> and the remaining data span. The
  \<^verbatim>\<open>assert\<close> that the drivers are sorted is compiled out of release builds and is not part
  of the model.
\<close>

type_synonym out_buffer = "string \<times> nat"

definition copy_to_buffer :: "string \<Rightarrow> out_buffer \<Rightarrow> error + out_buffer" where
  "copy_to_buffer s b =
     (if length s > snd b then Inl InternalError
      else Inr (fst b @ s, snd b - length s))"

fun copy_drivers :: "string \<Rightarrow> Driver list \<Rightarrow> nat \<Rightarrow> out_buffer \<Rightarrow> error + nat \<times> out_buffer" where
  "copy_drivers original_save_data [] not_copied_offset b = Inr (not_copied_offset, b)"
| "copy_drivers original_save_data (d # ds) not_copied_offset b =
     (if position d \<noteq> original_position d then
        (case substr original_save_data not_copied_offset
                (size_t_sub (car_id_file_offset d) not_copied_offset) of
           Inl e \<Rightarrow> Inl e
         | Inr untouched \<Rightarrow>
             (case copy_to_buffer untouched b of
                Inl e \<Rightarrow> Inl e
              | Inr b1 \<Rightarrow>
                  (case copy_to_buffer (get_position_as_json_value (position d)) b1 of
                     Inl e \<Rightarrow> Inl e
                   | Inr b2 \<Rightarrow>
                       copy_drivers original_save_data ds
                         (size_t_add (car_id_file_offset d)
                            (length (get_position_as_json_value (original_position d))))
                         b2)))
      else copy_drivers original_save_data ds not_copied_offset b)"

definition copy_info :: "string \<Rightarrow> nat \<Rightarrow> nat \<Rightarrow> string \<Rightarrow> out_buffer \<Rightarrow> error + out_buffer" where
  "copy_info original_save_info original_save_name_offset original_save_name_size new_save_name b =
     (case substr original_save_info 0 original_save_name_offset of
        Inl e \<Rightarrow> Inl e
      | Inr before_name \<Rightarrow>
          (case copy_to_buffer before_name b of
             Inl e \<Rightarrow> Inl e
           | Inr b1 \<Rightarrow>
               (case copy_to_buffer new_save_name b1 of
                  Inl e \<Rightarrow> Inl e
                | Inr b2 \<Rightarrow>
                    (case substr_from original_save_info
                            (size_t_add original_save_name_offset original_save_name_size) of
                       Inl e \<Rightarrow> Inl e
                     | Inr after_name \<Rightarrow> copy_to_buffer after_name b2))))"

definition copy_data :: "string \<Rightarrow> Driver list \<Rightarrow> out_buffer \<Rightarrow> error + out_buffer" where
  "copy_data original_save_data drivers b =
     (case copy_drivers original_save_data drivers 0 b of
        Inl e \<Rightarrow> Inl e
      | Inr (not_copied_offset, b1) \<Rightarrow>
          (case substr_from original_save_data not_copied_offset of
             Inl e \<Rightarrow> Inl e
           | Inr tail \<Rightarrow> copy_to_buffer tail b1))"

definition create_uncompressed_output ::
  "string \<Rightarrow> string \<Rightarrow> nat \<Rightarrow> nat \<Rightarrow> string \<Rightarrow> Driver list \<Rightarrow> error + string \<times> string" where
  "create_uncompressed_output original_save_info original_save_data original_save_name_offset
       original_save_name_size new_save_name drivers =
     (case create_uncompressed_output_buffer original_save_info original_save_data
             original_save_name_size new_save_name drivers of
        (info_capacity, data_capacity) \<Rightarrow>
          (case copy_info original_save_info original_save_name_offset original_save_name_size
                  new_save_name ([], info_capacity) of
             Inl e \<Rightarrow> Inl e
           | Inr remaining_info_buffer \<Rightarrow>
               (case copy_data original_save_data drivers ([], data_capacity) of
                  Inl e \<Rightarrow> Inl e
                | Inr remaining_data_buffer \<Rightarrow>
                    if snd remaining_info_buffer \<noteq> 0 \<or> snd remaining_data_buffer \<noteq> 0
                    then Inl InternalError
                    else Inr (fst remaining_info_buffer, fst remaining_data_buffer))))"

section \<open>Notions used in the statements\<close>

text \<open>
  \<open>backslash_run json i\<close> is the length of the run of consecutive backslashes that ends just
  before offset \<open>i\<close>. \<open>escaped_at json o i\<close> is the flag of the forward scan that started behind
  the opening quote at \<open>o\<close>, when it reaches \<open>i\<close>: a backslash toggles it, any other byte clears
  it. \<open>escaped_quotes_only json lo hi\<close> says that every quote at an offset from \<open>lo\<close> up to, not
  including, \<open>hi\<close> follows an odd run.
\<close>

definition backslash_run :: "string \<Rightarrow> nat \<Rightarrow> nat" where
  "backslash_run json i = length (takeWhile (\<lambda>c. c = BS) (rev (take i json)))"

definition escaped_at :: "string \<Rightarrow> nat \<Rightarrow> nat \<Rightarrow> bool" where
  "escaped_at json opening i =
     foldl (\<lambda>e c. c = BS \<and> \<not> e) False (take (i - Suc opening) (drop (Suc opening) json))"

definition escaped_quotes_only :: "string \<Rightarrow> nat \<Rightarrow> nat \<Rightarrow> bool" where
  "escaped_quotes_only json lo hi =
     (\<forall>k. lo \<le> k \<and> k < hi \<and> json ! k = DQ \<longrightarrow> odd (backslash_run json k))"

text \<open>
  \<open>opening_quotes json i n\<close> lists the offsets below \<open>n\<close> at which a left-to-right scan from
  \<open>i\<close> enters a string, skipping each string with \<open>find_closing_quote\<close> as the brace walk does.
\<close>

function opening_quotes :: "string \<Rightarrow> nat \<Rightarrow> nat \<Rightarrow> nat list" where
  "opening_quotes json i n =
     (if i < n \<and> i < length json then
        (if json ! i = DQ then
           i # (case find_closing_quote json i of
                  Inl e \<Rightarrow> []
                | Inr q \<Rightarrow> opening_quotes json (q + 1) n)
         else opening_quotes json (i + 1) n)
      else [])"
  by pat_completeness auto
termination
  by (relation "measure (\<lambda>(json, i, n). length json - i)")
    (auto dest: find_closing_quote_bounds)
declare opening_quotes.simps [simp del]

text \<open>
  \<open>token_delta d\<close> is the change of length that driver \<open>d\<close> causes. \<open>tokens_ascending lo ds\<close>
  says that the original tokens of \<open>ds\<close> lie one behind the other, the first not before \<open>lo\<close>.
  \<open>changed_tokens_fit\<close> asks the same of the edited drivers only, inside a buffer of \<open>n\<close>
  bytes, and \<open>bytes_to_write\<close> counts what the forward pass still writes.
\<close>

definition token_length :: "DriverPosition \<Rightarrow> nat" where
  "token_length p = length (get_position_as_json_value p)"

definition token_delta :: "Driver \<Rightarrow> int" where
  "token_delta d =
     (if position d \<noteq> original_position d
      then int (token_length (position d)) - int (token_length (original_position d))
      else 0)"

fun tokens_ascending :: "nat \<Rightarrow> Driver list \<Rightarrow> bool" where
  "tokens_ascending lo [] = True"
| "tokens_ascending lo (d # ds) =
     (lo \<le> car_id_file_offset d \<and>
      tokens_ascending (car_id_file_offset d + token_length (original_position d)) ds)"



text \<open>
  \<open>token_at json offset p\<close> says that the text at \<open>offset\<close> is the JSON token of position
  \<open>p\<close>, followed by a comma or a closing brace. \<open>drivers_invariant save_data drivers\<close> is the
  invariant of the three stored records: ascending offsets, and at each offset the token
  that decodes to the record's original position. \<open>decodes\<close> is what one freshly built
  record satisfies.

  Outside of \<^verbatim>\<open>SaveFile\<close> a driver is only reachable as a \<^verbatim>\<open>DriverRef\<close>, a constant name
  and a reference to \<^verbatim>\<open>position\<close>; an edit is the assignment \<^verbatim>\<open>driver.position = p\<close> to
  one element of the array, which \<open>set_driver_position\<close> models.
\<close>

definition token_at :: "string \<Rightarrow> nat \<Rightarrow> DriverPosition \<Rightarrow> bool" where
  "token_at json offset p =
     (offset + length (get_position_as_json_value p) < length json \<and>
      take (length (get_position_as_json_value p)) (drop offset json)
        = get_position_as_json_value p \<and>
      (json ! (offset + length (get_position_as_json_value p)) = CHR '','' \<or>
       json ! (offset + length (get_position_as_json_value p)) = CHR ''}''))"

definition drivers_invariant :: "string \<Rightarrow> Driver list \<Rightarrow> bool" where
  "drivers_invariant save_data drivers =
     (length drivers = 3 \<and>
      sorted (map car_id_file_offset drivers) \<and>
      (\<forall>d\<in>set drivers.
         parse_driver_position save_data (car_id_file_offset d) = Inr (original_position d) \<and>
         token_at save_data (car_id_file_offset d) (original_position d)))"

definition decodes :: "string \<Rightarrow> Driver \<Rightarrow> bool" where
  "decodes json d =
     (parse_driver_position json (car_id_file_offset d) = Inr (original_position d) \<and>
      position d = original_position d)"

definition set_driver_position :: "nat \<Rightarrow> DriverPosition \<Rightarrow> Driver list \<Rightarrow> Driver list" where
  "set_driver_position i p drivers = drivers[i := (drivers ! i)\<lparr>position := p\<rparr>]"

text \<open>
  \<open>ref_occurrences json team_id\<close> lists, in ascending order, every offset at which the
  back-reference to the team occurs in the buffer.
\<close>

definition occurs_at :: "string \<Rightarrow> string \<Rightarrow> nat \<Rightarrow> bool" where
  "occurs_at json pattern p = (take (length pattern) (drop p json) = pattern)"

definition ref_occurrences :: "string \<Rightarrow> string \<Rightarrow> nat list" where
  "ref_occurrences json team_id =
     filter (occurs_at json (employeer_team_ref_str team_id)) [0..<length json]"

subsection \<open>Compactly written JSON\<close>

text \<open>
  The game writes its documents without white space. A \<open>jvalue\<close> is a string, an atom (a
  number, \<^verbatim>\<open>true\<close>, \<^verbatim>\<open>false\<close>, \<^verbatim>\<open>null\<close>), an object or an array, and \<open>render\<close> is its text in
  that layout: members and elements are separated by one comma, a key is followed by one
  colon, and nothing else stands between the tokens. The body of a string is kept as it is
  written, escapes included.

  \<open>string_body s\<close> says that \<open>s\<close> can stand between two quotes: every backslash is followed
  by one more byte, and a quote only occurs behind such a backslash. \<open>atom_text a\<close> says that
  \<open>a\<close> is not empty and has no quote, backslash, brace, bracket, comma or colon.
  \<open>compact_value v\<close> asks this of every string, key and atom of \<open>v\<close>.
\<close>

datatype jvalue =
    JString string
  | JAtom string
  | JObject "(string \<times> jvalue) list"
  | JArray "jvalue list"

fun separated :: "string list \<Rightarrow> string" where
  "separated [] = []"
| "separated [x] = x"
| "separated (x # y # r) = x @ CHR '','' # separated (y # r)"

fun render :: "jvalue \<Rightarrow> string" where
  "render (JString s) = DQ # s @ [DQ]"
| "render (JAtom a) = a"
| "render (JObject ms) =
     CHR ''{'' # separated (map (\<lambda>m. DQ # fst m @ [DQ, CHR '':''] @ render (snd m)) ms) @ ''}''"
| "render (JArray vs) = CHR ''['' # separated (map render vs) @ '']''"
declare render.simps(3) [simp del]

definition render_member :: "string \<times> jvalue \<Rightarrow> string" where
  "render_member m = DQ # fst m @ [DQ, CHR '':''] @ render (snd m)"

definition render_members :: "(string \<times> jvalue) list \<Rightarrow> string" where
  "render_members ms = separated (map render_member ms)"

fun string_body :: "string \<Rightarrow> bool" where
  "string_body [] = True"
| "string_body [c] = (c \<noteq> BS \<and> c \<noteq> DQ)"
| "string_body (c # d # cs) =
     (if c = BS then string_body cs else c \<noteq> DQ \<and> string_body (d # cs))"

definition atom_text :: "string \<Rightarrow> bool" where
  "atom_text a =
     (a \<noteq> [] \<and>
      (\<forall>c\<in>set a. c \<noteq> DQ \<and> c \<noteq> BS \<and> c \<noteq> CHR ''{'' \<and> c \<noteq> CHR ''}'' \<and> c \<noteq> CHR ''['' \<and>
         c \<noteq> CHR '']'' \<and> c \<noteq> CHR '','' \<and> c \<noteq> CHR '':''))"

fun compact_value :: "jvalue \<Rightarrow> bool" where
  "compact_value (JString s) = string_body s"
| "compact_value (JAtom a) = atom_text a"
| "compact_value (JObject ms) = (\<forall>m\<in>set ms. string_body (fst m) \<and> compact_value (snd m))"
| "compact_value (JArray vs) = (\<forall>v\<in>set vs. compact_value v)"

definition compact_members :: "(string \<times> jvalue) list \<Rightarrow> bool" where
  "compact_members ms = (\<forall>m\<in>set ms. string_body (fst m) \<and> compact_value (snd m))"

definition separator :: "'a list \<Rightarrow> string" where
  "separator ms = (if ms = [] then [] else '','')"

text \<open>
  \<open>member_values i ms\<close> lists, for the members \<open>ms\<close> of an object whose first key starts at
  offset \<open>i\<close>, each key with the offset of the first byte of its value.

  \<open>visit callback json kvs st\<close> is the contract of \<^verbatim>\<open>for_sibling_key_values_in_object\<close>: the
  callback is called for the pairs of \<open>kvs\<close> in order, until it returns \<^verbatim>\<open>false\<close> or throws.
\<close>

fun member_values :: "nat \<Rightarrow> (string \<times> jvalue) list \<Rightarrow> (string \<times> nat) list" where
  "member_values i [] = []"
| "member_values i (m # ms) =
     (fst m, i + length (fst m) + 3)
       # member_values (i + length (render_member m) + length (separator ms)) ms"

fun visit :: "'s key_value_callback \<Rightarrow> string \<Rightarrow> (string \<times> nat) list \<Rightarrow> 's \<Rightarrow> error + bool \<times> 's" where
  "visit callback json [] st = Inr (True, st)"
| "visit callback json (kv # kvs) st =
     (case callback json (fst kv) (snd kv) st of
        Inl e \<Rightarrow> Inl e
      | Inr (continue, st') \<Rightarrow>
          if continue then visit callback json kvs st' else Inr (False, st'))"

subsection \<open>The drivers of a document\<close>

text \<open>
  What the text of an object says about a driver: \<open>car_member ms\<close> is the position written
  as the value of the key \<^verbatim>\<open>mCarID\<close> (one of the tokens \<^verbatim>\<open>-1\<close>, \<^verbatim>\<open>0\<close>, \<^verbatim>\<open>1\<close>) and
  \<open>string_member ms key\<close> is the body of the string written as the value of \<open>key\<close>.
  \<open>object_driver i ms\<close> is the record of the object with the members \<open>ms\<close>, the first key
  at offset \<open>i\<close>: it exists when the object has the car identifier, a first name and a last
  name, and then carries the two names joined by a space, the position, and the offset of
  the car identifier's token. \<open>fields_ok ms\<close> excludes the objects on which the scan throws:
  a car identifier that is not one of the three tokens, a name that is not a string.
\<close>

fun position_of_token :: "string \<Rightarrow> DriverPosition option" where
  "position_of_token tok =
     (if tok = ''-1'' then Some reserve
      else if tok = ''0'' then Some car1
      else if tok = ''1'' then Some car2
      else None)"

definition string_member :: "(string \<times> jvalue) list \<Rightarrow> string \<Rightarrow> string option" where
  "string_member ms key = (case map_of ms key of Some (JString s) \<Rightarrow> Some s | _ \<Rightarrow> None)"

definition car_member :: "(string \<times> jvalue) list \<Rightarrow> DriverPosition option" where
  "car_member ms =
     (case map_of ms ''mCarID'' of Some (JAtom tok) \<Rightarrow> position_of_token tok | _ \<Rightarrow> None)"

definition object_driver :: "nat \<Rightarrow> (string \<times> jvalue) list \<Rightarrow> Driver option" where
  "object_driver i ms =
     (case car_member ms of
        None \<Rightarrow> None
      | Some p \<Rightarrow>
          (case string_member ms ''mFirstName'' of
             None \<Rightarrow> None
           | Some first_name \<Rightarrow>
               (case string_member ms ''mLastName'' of
                  None \<Rightarrow> None
                | Some last_name \<Rightarrow>
                    (case map_of (member_values i ms) ''mCarID'' of
                       None \<Rightarrow> None
                     | Some off \<Rightarrow> Some (new_Driver (first_name @ '' '' @ last_name) p off)))))"

definition fields_ok :: "(string \<times> jvalue) list \<Rightarrow> bool" where
  "fields_ok ms =
     ((map_of ms ''mCarID'' \<noteq> None \<longrightarrow> car_member ms \<noteq> None) \<and>
      (map_of ms ''mFirstName'' \<noteq> None \<longrightarrow> string_member ms ''mFirstName'' \<noteq> None) \<and>
      (map_of ms ''mLastName'' \<noteq> None \<longrightarrow> string_member ms ''mLastName'' \<noteq> None))"

text \<open>
  A \<open>site\<close> describes the buffer around one occurrence of the back-reference.

  \<^item> \<open>In_contract pre siblings_before inner_before inner_after siblings_after post\<close>: the
    reference is a member of an object that is the value of the key \<^verbatim>\<open>contract\<close>, between
    the members \<open>inner_before\<close> and \<open>inner_after\<close>; the contract is a member of an object
    with the further members \<open>siblings_before\<close> and \<open>siblings_after\<close>; \<open>pre\<close> and \<open>post\<close> are
    the bytes before and behind that object, whatever they are.
  \<^item> \<open>Elsewhere pre inner_before rest\<close>: the reference is a member of an object, behind the
    members \<open>inner_before\<close>; the bytes \<open>pre\<close> before that object do not end with the key
    \<^verbatim>\<open>"contract":\<close>; \<open>rest\<close> are the bytes behind the reference.

  \<open>site_text\<close> is the buffer that a site describes and \<open>site_offset\<close> the offset of the
  reference in it. \<open>site_ok\<close> asks that the members are compactly written, and for a contract
  also that the keys of the object around it are distinct, that \<open>fields_ok\<close> holds and that
  the object is not the end of the buffer. \<open>site_driver\<close> is the record the site stands for,
  and \<open>site_drivers\<close> lists the records of a list of sites.
\<close>

definition ref_member :: "string \<Rightarrow> string \<times> jvalue" where
  "ref_member team_id = (''mEmployeerTeam'', JObject [(''$ref'', JString team_id)])"

definition contract_member ::
  "string \<Rightarrow> (string \<times> jvalue) list \<Rightarrow> (string \<times> jvalue) list \<Rightarrow> string \<times> jvalue" where
  "contract_member team_id inner_before inner_after =
     (''contract'', JObject (inner_before @ ref_member team_id # inner_after))"

datatype site =
    In_contract string "(string \<times> jvalue) list" "(string \<times> jvalue) list"
      "(string \<times> jvalue) list" "(string \<times> jvalue) list" string
  | Elsewhere string "(string \<times> jvalue) list" string

fun site_text :: "string \<Rightarrow> site \<Rightarrow> string" where
  "site_text team_id (In_contract pre siblings_before inner_before inner_after siblings_after post) =
     pre @ render (JObject (siblings_before @ contract_member team_id inner_before inner_after # siblings_after))
       @ post"
| "site_text team_id (Elsewhere pre inner_before rest) =
     pre @ CHR ''{'' # render_members inner_before @ separator inner_before
       @ render_member (ref_member team_id) @ rest"

fun site_offset :: "site \<Rightarrow> nat" where
  "site_offset (In_contract pre siblings_before inner_before inner_after siblings_after post) =
     length pre + 1 + length (render_members siblings_before) + length (separator siblings_before)
       + length contract_key + 1 + length (render_members inner_before)
       + length (separator inner_before)"
| "site_offset (Elsewhere pre inner_before rest) =
     length pre + 1 + length (render_members inner_before) + length (separator inner_before)"

fun site_ok :: "string \<Rightarrow> site \<Rightarrow> bool" where
  "site_ok team_id (In_contract pre siblings_before inner_before inner_after siblings_after post) =
     (compact_members (siblings_before @ contract_member team_id inner_before inner_after # siblings_after) \<and>
      distinct (map fst (siblings_before @ contract_member team_id inner_before inner_after # siblings_after)) \<and>
      fields_ok (siblings_before @ contract_member team_id inner_before inner_after # siblings_after) \<and>
      post \<noteq> [])"
| "site_ok team_id (Elsewhere pre inner_before rest) =
     (compact_members inner_before \<and> drop (length pre - length contract_key) pre \<noteq> contract_key)"

fun site_driver :: "string \<Rightarrow> site \<Rightarrow> Driver option" where
  "site_driver team_id (In_contract pre siblings_before inner_before inner_after siblings_after post) =
     object_driver (length pre + 1)
       (siblings_before @ contract_member team_id inner_before inner_after # siblings_after)"
| "site_driver team_id (Elsewhere pre inner_before rest) = None"

definition site_at :: "string \<Rightarrow> string \<Rightarrow> nat \<Rightarrow> site \<Rightarrow> bool" where
  "site_at json team_id p s = (json = site_text team_id s \<and> p = site_offset s \<and> site_ok team_id s)"

definition site_drivers :: "string \<Rightarrow> site list \<Rightarrow> Driver list" where
  "site_drivers team_id sites =
     concat (map (\<lambda>s. case site_driver team_id s of None \<Rightarrow> [] | Some d \<Rightarrow> [d]) sites)"

subsection \<open>Notions used in the proofs\<close>

text \<open>
  \<open>driver_at_ref\<close> is what the body of the loop over the occurrences computes for one
  occurrence, and \<open>drivers_found\<close> collects the records it yields. \<open>skipped x\<close> says that both
  brace walks pass over the text \<open>x\<close> without a change of their stack. The remaining
  definitions describe the three optionals of \<^verbatim>\<open>maybe_get_driver\<close> while the callback runs.
\<close>

definition driver_at_ref :: "string \<Rightarrow> nat \<Rightarrow> (error + Driver option) option" where
  "driver_at_ref json ref_pos =
     (case find_employeer_team_ref_contract_offset json ref_pos of
        Inl e \<Rightarrow> Some (Inl e)
      | Inr None \<Rightarrow> Some (Inr None)
      | Inr (Some contract_key_offset) \<Rightarrow> maybe_get_driver json contract_key_offset)"

definition drivers_found :: "string \<Rightarrow> nat list \<Rightarrow> Driver list" where
  "drivers_found json refs =
     concat (map (\<lambda>p. case driver_at_ref json p of Some (Inr (Some d)) \<Rightarrow> [d] | _ \<Rightarrow> []) refs)"

definition skipped :: "string \<Rightarrow> bool" where
  "skipped x =
     ((\<forall>a b tos rest. fcb_loop (a @ x @ b) (length a) tos rest
          = fcb_loop (a @ x @ b) (length a + length x) tos rest) \<and>
      (\<forall>a b tos rest. a \<noteq> [] \<and> last a \<noteq> BS \<longrightarrow>
          rob_loop (a @ x @ b) (length a + length x - 1) tos rest
          = rob_loop (a @ x @ b) (length a - 1) tos rest) \<and>
      (x \<noteq> [] \<longrightarrow> last x \<noteq> BS))"

definition ordinary :: "char \<Rightarrow> bool" where
  "ordinary c =
     (c \<noteq> DQ \<and> c \<noteq> BS \<and> c \<noteq> CHR ''{'' \<and> c \<noteq> CHR ''}'' \<and> c \<noteq> CHR ''['' \<and> c \<noteq> CHR '']'')"

definition name_at :: "string \<Rightarrow> nat \<Rightarrow> string" where
  "name_at json off = (case parse_driver_name_string json off of Inr s \<Rightarrow> s | Inl e \<Rightarrow> [])"

definition update_fields :: "string \<Rightarrow> string \<times> nat \<Rightarrow> driver_fields \<Rightarrow> driver_fields" where
  "update_fields json kv st =
     (case st of (c, f, l) \<Rightarrow>
        if fst kv = ''mCarID'' then (Some (snd kv), f, l)
        else if fst kv = ''mFirstName'' then (c, Some (name_at json (snd kv)), l)
        else if fst kv = ''mLastName'' then (c, f, Some (name_at json (snd kv)))
        else st)"

definition fields_after :: "string \<Rightarrow> (string \<times> nat) list \<Rightarrow> driver_fields \<Rightarrow> driver_fields" where
  "fields_after json L st =
     (case st of (c, f, l) \<Rightarrow>
        (case map_of L ''mCarID'' of None \<Rightarrow> c | Some off \<Rightarrow> Some off,
         case map_of L ''mFirstName'' of None \<Rightarrow> f | Some off \<Rightarrow> Some (name_at json off),
         case map_of L ''mLastName'' of None \<Rightarrow> l | Some off \<Rightarrow> Some (name_at json off)))"

definition fields_fresh :: "(string \<times> nat) list \<Rightarrow> driver_fields \<Rightarrow> bool" where
  "fields_fresh L st =
     (case st of (c, f, l) \<Rightarrow>
        (c \<noteq> None \<longrightarrow> ''mCarID'' \<notin> fst ` set L) \<and>
        (f \<noteq> None \<longrightarrow> ''mFirstName'' \<notin> fst ` set L) \<and>
        (l \<noteq> None \<longrightarrow> ''mLastName'' \<notin> fst ` set L))"

definition names_parse :: "string \<Rightarrow> (string \<times> nat) list \<Rightarrow> bool" where
  "names_parse json L =
     (\<forall>kv\<in>set L. fst kv = ''mFirstName'' \<or> fst kv = ''mLastName'' \<longrightarrow>
        (\<exists>s. parse_driver_name_string json (snd kv) = Inr s))"

subsection \<open>Example inputs\<close>

definition example_header :: "byte \<Rightarrow> byte \<Rightarrow> byte list" where
  "example_header ver csize =
     [0x6D, 0x6D, 0x32, 0x73,  ver, 0, 0, 0,  csize, 0, 0, 0,  2, 0, 0, 0,
      0xFF, 0xFF, 0xFF, 0x7F,  4, 0, 0, 0]"

definition example_info :: string where
  "example_info = ''{\"saveInfo\":{\"date\":1,\"name\":\"abc\"}}''"

definition example_data :: string where
  "example_data = ''{\"a\":-1,\"b\":1,\"c\":0}''"



definition unchanged_drivers :: "Driver list" where
  "unchanged_drivers =
     [new_Driver ''A'' reserve 5, new_Driver ''B'' car2 12, new_Driver ''C'' car1 18]"

lemmas nav_eval = find_matching_brace_def find_closing_brace_def rfind_opening_brace_def
  fcb_loop.simps rob_loop.simps find_closing_quote_def fcq_loop.simps rfind_opening_quote_def
  roq_loop.simps count_preceeding_backslashes_def cpb_loop.simps

lemmas header_eval = read_save_file_header_def header_at_def read_int_def Let_def
  sizeof_SaveFileHeader_def mm_save_file_magic_def mm_save_file_supported_version_def
  max_decompressed_buffer_size_def example_header_def


text \<open>
  \<open>example_save_data\<close> is a document with the player team \<^verbatim>\<open>7\<close>, three drivers of that
  team (one per position, the fields in different orders around the contract), a member of
  staff whose object has no \<^verbatim>\<open>mCarID\<close>, and a reference to the team that is inside a
  \<^verbatim>\<open>sponsor\<close> object. \<open>nested_save_data\<close> is such a document with nested values, an
  escaped quote in a name and further members inside a contract; \<open>nested_sites\<close> describes
  the five occurrences of the reference in it.

  In \<open>invalid_position_data\<close> the only contract of the team belongs to an object whose car
  identifier is \<^verbatim>\<open>2\<close>. \<open>spaced_save_data\<close> has three drivers of the team, and one space
  behind the comma that follows the first driver's contract.
\<close>

definition example_save_data :: string where
  "example_save_data =
     ''{\"mPlayerTeam\":{\"$id\":\"7\"},\"p\":[''
     @ ''{\"mFirstName\":\"A\",\"mCarID\":0,\"contract\":{\"mEmployeerTeam\":{\"$ref\":\"7\"}},\"mLastName\":\"X\"},''
     @ ''{\"contract\":{\"mEmployeerTeam\":{\"$ref\":\"7\"}},\"mLastName\":\"Y\",\"mFirstName\":\"B\",\"mCarID\":1},''
     @ ''{\"mCarID\":-1,\"mLastName\":\"Z\",\"mFirstName\":\"C\",\"contract\":{\"mEmployeerTeam\":{\"$ref\":\"7\"}}},''
     @ ''{\"mLastName\":\"S\",\"mFirstName\":\"D\",\"contract\":{\"mEmployeerTeam\":{\"$ref\":\"7\"}}},''
     @ ''{\"sponsor\":{\"mEmployeerTeam\":{\"$ref\":\"7\"}}}]}''"

definition example_save_drivers :: "Driver list" where
  "example_save_drivers =
     [new_Driver ''A X'' car1 59, new_Driver ''B Y'' car2 207, new_Driver ''C Z'' reserve 220]"

definition invalid_position_data :: string where
  "invalid_position_data =
     ''{\"mPlayerTeam\":{\"$id\":\"7\"},\"p\":[''
     @ ''{\"mCarID\":2,\"mFirstName\":\"A\",\"mLastName\":\"X\",\"contract\":{\"mEmployeerTeam\":{\"$ref\":\"7\"}}}]}''"

definition nested_save_data :: string where
  "nested_save_data =
     ''{\"mPlayerTeam\":{\"$id\":\"7\"},\"p\":[''
     @ ''{\"mFirstName\":\"A'' @ [BS] @ ''\"B\",\"tags\":[\"x\",{\"y\":[1,2]}],\"mCarID\":0,''
     @ ''\"contract\":{\"n\":1,\"mEmployeerTeam\":{\"$ref\":\"7\"},\"e\":[]},\"mLastName\":\"X\"},''
     @ ''{\"contract\":{\"mEmployeerTeam\":{\"$ref\":\"7\"}},\"mLastName\":\"Y\",\"mFirstName\":\"B\",\"mCarID\":1},''
     @ ''{\"mCarID\":-1,\"mLastName\":\"Z\",\"mFirstName\":\"C\",\"contract\":{\"mEmployeerTeam\":{\"$ref\":\"7\"}}},''
     @ ''{\"mLastName\":\"S\",\"mFirstName\":\"D\",\"contract\":{\"mEmployeerTeam\":{\"$ref\":\"7\"}}},''
     @ ''{\"sponsor\":{\"id\":3,\"mEmployeerTeam\":{\"$ref\":\"7\"}}}]}''"

definition nested_sites :: "site list" where
  "nested_sites =
     [In_contract (take 32 nested_save_data)
        [(''mFirstName'', JString (''A'' @ [BS, DQ] @ ''B'')),
         (''tags'', JArray [JString ''x'', JObject [(''y'', JArray [JAtom ''1'', JAtom ''2''])]]),
         (''mCarID'', JAtom ''0'')]
        [(''n'', JAtom ''1'')] [(''e'', JArray [])]
        [(''mLastName'', JString ''X'')]
        (drop 161 nested_save_data),
      In_contract (take 162 nested_save_data)
        [] [] []
        [(''mLastName'', JString ''Y''), (''mFirstName'', JString ''B''), (''mCarID'', JAtom ''1'')]
        (drop 250 nested_save_data),
      In_contract (take 251 nested_save_data)
        [(''mCarID'', JAtom ''-1''), (''mLastName'', JString ''Z''), (''mFirstName'', JString ''C'')]
        [] [] []
        (drop 340 nested_save_data),
      In_contract (take 341 nested_save_data)
        [(''mLastName'', JString ''S''), (''mFirstName'', JString ''D'')]
        [] [] []
        (drop 418 nested_save_data),
      Elsewhere (take 430 nested_save_data) [(''id'', JAtom ''3'')] (drop 467 nested_save_data)]"

definition nested_save_drivers :: "Driver list" where
  "nested_save_drivers =
     [new_Driver (''A'' @ [BS, DQ] @ ''B X'') car1 87, new_Driver ''B Y'' car2 248,
      new_Driver ''C Z'' reserve 261]"

definition spaced_save_data :: string where
  "spaced_save_data =
     ''{\"mPlayerTeam\":{\"$id\":\"7\"},\"p\":[''
     @ ''{\"contract\":{\"mEmployeerTeam\":{\"$ref\":\"7\"}}, \"mCarID\":0,\"mFirstName\":\"A\",\"mLastName\":\"X\"},''
     @ ''{\"contract\":{\"mEmployeerTeam\":{\"$ref\":\"7\"}},\"mCarID\":1,\"mFirstName\":\"B\",\"mLastName\":\"Y\"},''
     @ ''{\"contract\":{\"mEmployeerTeam\":{\"$ref\":\"7\"}},\"mCarID\":-1,\"mFirstName\":\"C\",\"mLastName\":\"Z\"}]}''"

section \<open>Properties of the quote scans\<close>

lemma backslash_run_0 [simp]: "backslash_run json 0 = 0"
  by (simp add: backslash_run_def)

lemma backslash_run_Suc:
  "i < length json \<Longrightarrow>
   backslash_run json (Suc i) = (if json ! i = BS then Suc (backslash_run json i) else 0)"
  by (simp add: backslash_run_def take_Suc_conv_app_nth)

lemma backslash_run_le: "backslash_run json i \<le> i"
proof -
  have "backslash_run json i \<le> length (rev (take i json))"
    unfolding backslash_run_def by (rule length_takeWhile_le)
  then show ?thesis by simp
qed

lemma cpb_loop_run:
  "i < offset \<Longrightarrow> offset \<le> length json \<Longrightarrow>
   cpb_loop json offset i = (offset - i - 1) + backslash_run json (Suc i)"
proof (induction i)
  case 0
  then have "0 < length json" by (cases json) auto
  with 0 show ?case by (subst cpb_loop.simps) (simp add: backslash_run_Suc)
next
  case (Suc i)
  then have "Suc i < length json" by simp
  with Suc show ?case
    by (subst cpb_loop.simps) (simp add: backslash_run_Suc)
qed

lemma count_preceeding_backslashes_run:
  "offset \<le> length json \<Longrightarrow> count_preceeding_backslashes json offset = backslash_run json offset"
  by (cases offset) (simp_all add: count_preceeding_backslashes_def cpb_loop_run)

lemma backslash_run_nth:
  "i \<le> length json \<Longrightarrow> k < i \<Longrightarrow> i - backslash_run json i \<le> k \<Longrightarrow> json ! k = BS"
proof (induction i)
  case 0
  then show ?case by simp
next
  case (Suc i)
  then have il: "i < length json" by simp
  show ?case
  proof (cases "json ! i = BS")
    case True
    show ?thesis
    proof (cases "k = i")
      case True
      with \<open>json ! i = BS\<close> show ?thesis by simp
    next
      case False
      with Suc.prems True il have "k < i" "i - backslash_run json i \<le> k"
        by (simp_all add: backslash_run_Suc)
      with Suc.IH il show ?thesis by simp
    qed
  next
    case False
    with Suc.prems il show ?thesis by (simp add: backslash_run_Suc)
  qed
qed

lemma escaped_at_Suc:
  assumes "opening < i" "i < length json"
  shows "escaped_at json opening (Suc i) = (json ! i = BS \<and> \<not> escaped_at json opening i)"
proof -
  have "i - Suc opening < length (drop (Suc opening) json)"
    using assms by simp
  then have "take (Suc (i - Suc opening)) (drop (Suc opening) json)
      = take (i - Suc opening) (drop (Suc opening) json) @ [drop (Suc opening) json ! (i - Suc opening)]"
    by (rule take_Suc_conv_app_nth)
  moreover have "Suc i - Suc opening = Suc (i - Suc opening)"
    using assms by simp
  moreover have "drop (Suc opening) json ! (i - Suc opening) = json ! i"
    using assms by simp
  ultimately show ?thesis
    by (simp add: escaped_at_def)
qed

lemma escaped_at_start: "escaped_at json opening (Suc opening) = False"
  by (simp add: escaped_at_def)

lemma escaped_at_odd_run:
  assumes "json ! opening \<noteq> BS" "opening < i" "i \<le> length json"
  shows "escaped_at json opening i = odd (backslash_run json i)"
  using assms(2,3)
proof (induction i)
  case 0
  then show ?case by simp
next
  case (Suc i)
  show ?case
  proof (cases "i = opening")
    case True
    with Suc.prems assms(1) show ?thesis
      by (simp add: escaped_at_start backslash_run_Suc)
  next
    case False
    with Suc.prems have "opening < i" "i < length json" by simp_all
    with Suc.IH show ?thesis
      by (simp add: escaped_at_Suc backslash_run_Suc)
  qed
qed

lemma all_from_Suc:
  "\<lbrakk>\<forall>k. Suc i \<le> k \<and> k < n \<and> P k \<longrightarrow> Q k; P i \<longrightarrow> Q i\<rbrakk>
   \<Longrightarrow> \<forall>k. i \<le> k \<and> k < n \<and> P k \<longrightarrow> Q k"
  by (metis Suc_leI le_neq_implies_less)

lemma fcq_loop_Inr:
  "fcq_loop json i escaped = Inr q \<Longrightarrow> opening < i \<Longrightarrow> escaped = escaped_at json opening i \<Longrightarrow>
   i \<le> q \<and> q < length json \<and> json ! q = DQ \<and> \<not> escaped_at json opening q \<and>
   (\<forall>k. i \<le> k \<and> k < q \<and> json ! k = DQ \<longrightarrow> escaped_at json opening k)"
proof (induction json i escaped rule: fcq_loop.induct)
  case (1 json i escaped)
  from "1.prems"(1) have len: "i < length json"
    by (subst (asm) fcq_loop.simps) (auto split: if_splits)
  note nxt = escaped_at_Suc [OF \<open>opening < i\<close> len]
  have op: "opening < i + 1" using "1.prems"(2) by simp
  consider (bs) "json ! i = BS"
    | (unescaped) "json ! i \<noteq> BS" "json ! i = DQ" "\<not> escaped"
    | (escaped) "json ! i \<noteq> BS" "json ! i = DQ" "escaped"
    | (other) "json ! i \<noteq> BS" "json ! i \<noteq> DQ"
    by blast
  then show ?case
  proof cases
    case bs
    have "fcq_loop json (i + 1) (\<not> escaped) = Inr q"
      using "1.prems"(1) len bs by (subst (asm) fcq_loop.simps) simp
    from "1.IH"(1) [OF len bs this op] "1.prems"(3) nxt bs
    have "i + 1 \<le> q \<and> q < length json \<and> json ! q = DQ \<and> \<not> escaped_at json opening q \<and>
      (\<forall>k. i + 1 \<le> k \<and> k < q \<and> json ! k = DQ \<longrightarrow> escaped_at json opening k)"
      by simp
    with all_from_Suc [of i q "\<lambda>k. json ! k = DQ" "escaped_at json opening"] bs
    show ?thesis by simp
  next
    case unescaped
    have "q = i"
      using "1.prems"(1) len unescaped by (subst (asm) fcq_loop.simps) simp
    with len unescaped "1.prems"(3) show ?thesis by auto
  next
    case escaped
    have "fcq_loop json (i + 1) False = Inr q"
      using "1.prems"(1) len escaped by (subst (asm) fcq_loop.simps) simp
    from "1.IH"(2) [OF len escaped(1,2) _ this op] "1.prems"(3) nxt escaped
    have "i + 1 \<le> q \<and> q < length json \<and> json ! q = DQ \<and> \<not> escaped_at json opening q \<and>
      (\<forall>k. i + 1 \<le> k \<and> k < q \<and> json ! k = DQ \<longrightarrow> escaped_at json opening k)"
      by simp
    with all_from_Suc [of i q "\<lambda>k. json ! k = DQ" "escaped_at json opening"] escaped "1.prems"(3)
    show ?thesis by simp
  next
    case other
    have "fcq_loop json (i + 1) False = Inr q"
      using "1.prems"(1) len other by (subst (asm) fcq_loop.simps) simp
    from "1.IH"(3) [OF len other this op] "1.prems"(3) nxt other
    have "i + 1 \<le> q \<and> q < length json \<and> json ! q = DQ \<and> \<not> escaped_at json opening q \<and>
      (\<forall>k. i + 1 \<le> k \<and> k < q \<and> json ! k = DQ \<longrightarrow> escaped_at json opening k)"
      by simp
    with all_from_Suc [of i q "\<lambda>k. json ! k = DQ" "escaped_at json opening"] other
    show ?thesis by simp
  qed
qed

lemma fcq_loop_Inl:
  "fcq_loop json i escaped = Inl e \<Longrightarrow> opening < i \<Longrightarrow> escaped = escaped_at json opening i \<Longrightarrow>
   e = MalformedJson \<and>
   (\<forall>k. i \<le> k \<and> k < length json \<and> json ! k = DQ \<longrightarrow> escaped_at json opening k)"
proof (induction json i escaped rule: fcq_loop.induct)
  case (1 json i escaped)
  show ?case
  proof (cases "i < length json")
    case False
    with "1.prems"(1) show ?thesis
      by (subst (asm) fcq_loop.simps) auto
  next
    case len: True
    note nxt = escaped_at_Suc [OF \<open>opening < i\<close> len]
    have op: "opening < i + 1" using "1.prems"(2) by simp
    consider (bs) "json ! i = BS"
      | (unescaped) "json ! i \<noteq> BS" "json ! i = DQ" "\<not> escaped"
      | (escaped) "json ! i \<noteq> BS" "json ! i = DQ" "escaped"
      | (other) "json ! i \<noteq> BS" "json ! i \<noteq> DQ"
      by blast
    then show ?thesis
    proof cases
      case bs
      have "fcq_loop json (i + 1) (\<not> escaped) = Inl e"
        using "1.prems"(1) len bs by (subst (asm) fcq_loop.simps) simp
      from "1.IH"(1) [OF len bs this op] "1.prems"(3) nxt bs
      have "e = MalformedJson \<and>
        (\<forall>k. i + 1 \<le> k \<and> k < length json \<and> json ! k = DQ \<longrightarrow> escaped_at json opening k)"
        by simp
      with all_from_Suc [of i "length json" "\<lambda>k. json ! k = DQ" "escaped_at json opening"] bs
      show ?thesis by simp
    next
      case unescaped
      have False
        using "1.prems"(1) len unescaped by (subst (asm) fcq_loop.simps) simp
      then show ?thesis ..
    next
      case escaped
      have "fcq_loop json (i + 1) False = Inl e"
        using "1.prems"(1) len escaped by (subst (asm) fcq_loop.simps) simp
      from "1.IH"(2) [OF len escaped(1,2) _ this op] "1.prems"(3) nxt escaped
      have "e = MalformedJson \<and>
        (\<forall>k. i + 1 \<le> k \<and> k < length json \<and> json ! k = DQ \<longrightarrow> escaped_at json opening k)"
        by simp
      with all_from_Suc [of i "length json" "\<lambda>k. json ! k = DQ" "escaped_at json opening"]
        escaped "1.prems"(3)
      show ?thesis by simp
    next
      case other
      have "fcq_loop json (i + 1) False = Inl e"
        using "1.prems"(1) len other by (subst (asm) fcq_loop.simps) simp
      from "1.IH"(3) [OF len other this op] "1.prems"(3) nxt other
      have "e = MalformedJson \<and>
        (\<forall>k. i + 1 \<le> k \<and> k < length json \<and> json ! k = DQ \<longrightarrow> escaped_at json opening k)"
        by simp
      with all_from_Suc [of i "length json" "\<lambda>k. json ! k = DQ" "escaped_at json opening"] other
      show ?thesis by simp
    qed
  qed
qed

lemma eqo_append:
  assumes "escaped_quotes_only json lo mid" "escaped_quotes_only json mid hi"
  shows "escaped_quotes_only json lo hi"
  unfolding escaped_quotes_only_def
proof (intro allI impI)
  fix k
  assume k: "lo \<le> k \<and> k < hi \<and> json ! k = DQ"
  show "odd (backslash_run json k)"
  proof (cases "k < mid")
    case True
    with k assms(1) show ?thesis by (simp add: escaped_quotes_only_def)
  next
    case False
    with k assms(2) show ?thesis by (simp add: escaped_quotes_only_def)
  qed
qed

lemma eqo_single:
  assumes "json ! i \<noteq> DQ \<or> odd (backslash_run json i)"
  shows "escaped_quotes_only json i (Suc i)"
  unfolding escaped_quotes_only_def
proof (intro allI impI)
  fix k
  assume k: "i \<le> k \<and> k < Suc i \<and> json ! k = DQ"
  then have "k = i" by simp
  with k assms show "odd (backslash_run json k)" by simp
qed

lemma eqo_run:
  assumes "i \<le> length json"
  shows "escaped_quotes_only json (i - backslash_run json i) i"
  unfolding escaped_quotes_only_def
proof (intro allI impI)
  fix k
  assume k: "i - backslash_run json i \<le> k \<and> k < i \<and> json ! k = DQ"
  with backslash_run_nth [OF assms, of k] have "json ! k = BS" by simp
  with k show "odd (backslash_run json k)" by simp
qed

lemma eqo_empty [simp]: "escaped_quotes_only json i i"
  by (auto simp: escaped_quotes_only_def)

lemma eqo_D:
  "escaped_quotes_only json lo hi \<Longrightarrow> lo \<le> k \<Longrightarrow> k < hi \<Longrightarrow> json ! k = DQ \<Longrightarrow>
   odd (backslash_run json k)"
  by (simp add: escaped_quotes_only_def)

lemma roq_loop_Inr:
  "roq_loop json i = Inr q \<Longrightarrow> i < length json \<Longrightarrow>
   q \<le> i \<and> json ! q = DQ \<and> backslash_run json q = 0 \<and> escaped_quotes_only json (Suc q) (Suc i)"
proof (induction json i rule: roq_loop.induct)
  case (1 json i)
  from "1.prems"(2) have cnt: "count_preceeding_backslashes json i = backslash_run json i"
    by (simp add: count_preceeding_backslashes_run)
  show ?case
  proof (cases "json ! i = DQ")
    case quote: True
    consider (zero) "backslash_run json i = 0"
      | (odd) "backslash_run json i \<noteq> 0" "backslash_run json i mod 2 = 1"
      | (even) "backslash_run json i \<noteq> 0" "backslash_run json i mod 2 \<noteq> 1"
      by blast
    then show ?thesis
    proof cases
      case zero
      with "1.prems"(1) quote cnt have "q = i"
        by (subst (asm) roq_loop.simps) simp
      with quote zero show ?thesis by simp
    next
      case odd
      let ?i' = "i - backslash_run json i"
      from "1.prems"(1) quote cnt odd have nz: "?i' \<noteq> 0" and rec: "roq_loop json (?i' - 1) = Inr q"
        by (subst (asm) roq_loop.simps, simp add: Let_def split: if_splits)+
      have "?i' - 1 < length json" using "1.prems"(2) by simp
      from "1.IH"(1) [OF quote cnt [symmetric] odd(1) _ refl nz rec this] odd(2) cnt
      have ih: "q \<le> ?i' - 1 \<and> json ! q = DQ \<and> backslash_run json q = 0 \<and>
        escaped_quotes_only json (Suc q) (Suc (?i' - 1))"
        by simp
      from nz have "Suc (?i' - 1) = ?i'" by simp
      with ih have a: "escaped_quotes_only json (Suc q) ?i'" by (simp only:)
      have b: "escaped_quotes_only json ?i' i"
        using "1.prems"(2) by (simp add: eqo_run)
      have c: "escaped_quotes_only json i (Suc i)"
        using odd(2) by (intro eqo_single) (simp add: odd_iff_mod_2_eq_one)
      from ih have "q \<le> i" by arith
      with ih eqo_append [OF eqo_append [OF a b] c] show ?thesis by simp
    next
      case even
      with "1.prems"(1) quote cnt have False
        by (subst (asm) roq_loop.simps) (simp add: Let_def)
      then show ?thesis ..
    qed
  next
    case other: False
    from "1.prems"(1) other have nz: "i \<noteq> 0" and rec: "roq_loop json (i - 1) = Inr q"
      by (subst (asm) roq_loop.simps, simp split: if_splits)+
    have "i - 1 < length json" using "1.prems"(2) by simp
    from "1.IH"(2) [OF other nz rec this] nz
    have ih: "q \<le> i - 1 \<and> json ! q = DQ \<and> backslash_run json q = 0 \<and>
        escaped_quotes_only json (Suc q) i"
      by simp
    have "escaped_quotes_only json i (Suc i)"
      using other by (intro eqo_single) simp
    with ih eqo_append show ?thesis by auto
  qed
qed

lemma roq_loop_Inl:
  "roq_loop json i = Inl e \<Longrightarrow> i < length json \<Longrightarrow>
   e = MalformedJson \<and>
   (escaped_quotes_only json 0 (Suc i) \<or>
    (\<exists>q\<le>i. json ! q = DQ \<and> even (backslash_run json q) \<and> 0 < backslash_run json q \<and>
       escaped_quotes_only json (Suc q) (Suc i)))"
proof (induction json i rule: roq_loop.induct)
  case (1 json i)
  from "1.prems"(2) have cnt: "count_preceeding_backslashes json i = backslash_run json i"
    by (simp add: count_preceeding_backslashes_run)
  show ?case
  proof (cases "json ! i = DQ")
    case quote: True
    consider (zero) "backslash_run json i = 0"
      | (odd) "backslash_run json i \<noteq> 0" "backslash_run json i mod 2 = 1"
      | (even) "backslash_run json i \<noteq> 0" "backslash_run json i mod 2 \<noteq> 1"
      by blast
    then show ?thesis
    proof cases
      case zero
      with "1.prems"(1) quote cnt have False
        by (subst (asm) roq_loop.simps) simp
      then show ?thesis ..
    next
      case odd
      let ?i' = "i - backslash_run json i"
      have b: "escaped_quotes_only json ?i' i"
        using "1.prems"(2) by (simp add: eqo_run)
      have c: "escaped_quotes_only json i (Suc i)"
        using odd(2) by (intro eqo_single) (simp add: odd_iff_mod_2_eq_one)
      note bc = eqo_append [OF b c]
      show ?thesis
      proof (cases "?i' = 0")
        case True
        with "1.prems"(1) quote cnt odd have "e = MalformedJson"
          by (subst (asm) roq_loop.simps) (simp add: Let_def)
        with bc True show ?thesis by simp
      next
        case nz: False
        with "1.prems"(1) quote cnt odd have rec: "roq_loop json (?i' - 1) = Inl e"
          by (subst (asm) roq_loop.simps) (simp add: Let_def)
        have "?i' - 1 < length json" using "1.prems"(2) by simp
        from "1.IH"(1) [OF quote cnt [symmetric] odd(1) _ refl nz rec this] odd(2) cnt
        have "e = MalformedJson \<and>
          (escaped_quotes_only json 0 (Suc (?i' - 1)) \<or>
            (\<exists>q\<le>?i' - 1. json ! q = DQ \<and> even (backslash_run json q) \<and> 0 < backslash_run json q \<and>
               escaped_quotes_only json (Suc q) (Suc (?i' - 1))))"
          by simp
        moreover from nz have "Suc (?i' - 1) = ?i'" by simp
        ultimately have ih: "e = MalformedJson \<and>
          (escaped_quotes_only json 0 ?i' \<or>
            (\<exists>q\<le>?i' - 1. json ! q = DQ \<and> even (backslash_run json q) \<and> 0 < backslash_run json q \<and>
               escaped_quotes_only json (Suc q) ?i'))"
          by (simp only:)
        then have e: "e = MalformedJson" by simp
        from ih consider (all) "escaped_quotes_only json 0 ?i'"
          | (ex) q where "q \<le> ?i' - 1" "json ! q = DQ" "even (backslash_run json q)"
              "0 < backslash_run json q" "escaped_quotes_only json (Suc q) ?i'"
          by blast
        then show ?thesis
        proof cases
          case all
          have "escaped_quotes_only json 0 (Suc i)" by (rule eqo_append [OF all bc])
          with e show ?thesis by simp
        next
          case ex
          have "escaped_quotes_only json (Suc q) (Suc i)" by (rule eqo_append [OF ex(5) bc])
          moreover have "q \<le> i" using ex(1) by arith
          ultimately show ?thesis using e ex(2-4)
            by (intro conjI disjI2 exI [of _ q]) simp_all
        qed
      qed
    next
      case even
      with "1.prems"(1) quote cnt have "e = MalformedJson"
        by (subst (asm) roq_loop.simps) (simp add: Let_def)
      moreover have "even (backslash_run json i)"
        using even(2) by presburger
      ultimately show ?thesis using quote even(1)
        by (intro conjI disjI2 exI [of _ i]) simp_all
    qed
  next
    case other: False
    have c: "escaped_quotes_only json i (Suc i)"
      using other by (intro eqo_single) simp
    show ?thesis
    proof (cases "i = 0")
      case True
      with "1.prems"(1) other have "e = MalformedJson"
        by (subst (asm) roq_loop.simps) simp
      with c True show ?thesis by simp
    next
      case nz: False
      with "1.prems"(1) other have rec: "roq_loop json (i - 1) = Inl e"
        by (subst (asm) roq_loop.simps) simp
      have "i - 1 < length json" using "1.prems"(2) by simp
      from "1.IH"(2) [OF other nz rec this] nz
      have ih: "e = MalformedJson \<and>
        (escaped_quotes_only json 0 i \<or>
          (\<exists>q\<le>i - 1. json ! q = DQ \<and> even (backslash_run json q) \<and> 0 < backslash_run json q \<and>
             escaped_quotes_only json (Suc q) i))"
        by simp
      then have e: "e = MalformedJson" by simp
      from ih consider (all) "escaped_quotes_only json 0 i"
        | (ex) q where "q \<le> i - 1" "json ! q = DQ" "even (backslash_run json q)"
            "0 < backslash_run json q" "escaped_quotes_only json (Suc q) i"
        by blast
      then show ?thesis
      proof cases
        case all
        have "escaped_quotes_only json 0 (Suc i)" by (rule eqo_append [OF all c])
        with e show ?thesis by simp
      next
        case ex
        have "escaped_quotes_only json (Suc q) (Suc i)" by (rule eqo_append [OF ex(5) c])
        moreover have "q \<le> i" using ex(1) by arith
        ultimately show ?thesis using e ex(2-4)
          by (intro conjI disjI2 exI [of _ q]) simp_all
      qed
    qed
  qed
qed

lemma find_closing_quote_spec:
  assumes "find_closing_quote json s = Inr e" "json ! s = DQ"
  shows "s < e \<and> e < length json \<and> json ! e = DQ \<and> even (backslash_run json e) \<and>
    escaped_quotes_only json (Suc s) e"
proof -
  from assms(1) have l: "fcq_loop json (s + 1) False = Inr e"
    by (simp add: find_closing_quote_def)
  have start: "s < s + 1" "False = escaped_at json s (s + 1)"
    by (simp_all add: escaped_at_start)
  from fcq_loop_Inr [OF l start]
  have a: "s + 1 \<le> e" "e < length json" "json ! e = DQ" "\<not> escaped_at json s e"
    and b: "\<forall>k. s + 1 \<le> k \<and> k < e \<and> json ! k = DQ \<longrightarrow> escaped_at json s k"
    by simp_all
  have nb: "json ! s \<noteq> BS" using assms(2) by simp
  have par: "\<And>k. s < k \<Longrightarrow> k \<le> e \<Longrightarrow> escaped_at json s k = odd (backslash_run json k)"
    using a(2) by (intro escaped_at_odd_run [OF nb]) simp_all
  have "even (backslash_run json e)"
    using par [of e] a by simp
  moreover have "escaped_quotes_only json (Suc s) e"
    unfolding escaped_quotes_only_def
  proof (intro allI impI)
    fix k assume k: "Suc s \<le> k \<and> k < e \<and> json ! k = DQ"
    with b have "escaped_at json s k" by simp
    with par [of k] k show "odd (backslash_run json k)" by simp
  qed
  ultimately show ?thesis using a by simp
qed

lemma string_roundtrip:
  assumes fq: "find_closing_quote json s = Inr e" and q: "json ! s = DQ"
    and pos: "0 < s" and nb: "json ! (s - 1) \<noteq> BS"
  shows "rfind_opening_quote json e = Inr s"
proof -
  from find_closing_quote_spec [OF fq q]
  have se: "s < e" and el: "e < length json" and ev: "even (backslash_run json e)"
    and inner: "escaped_quotes_only json (Suc s) e"
    by simp_all
  have "s - 1 < length json" using se el by simp
  from backslash_run_Suc [OF this] pos nb have run0: "backslash_run json s = 0" by simp
  have ne: "e \<noteq> 0" and s: "Suc (e - 1) = e" and l: "e - 1 < length json"
    using se el by simp_all
  show ?thesis
  proof (cases "roq_loop json (e - 1)")
    case (Inr p)
    from roq_loop_Inr [OF Inr l]
    have p: "p \<le> e - 1" "json ! p = DQ" "backslash_run json p = 0"
      "escaped_quotes_only json (Suc p) e"
      unfolding s by simp_all
    have pe: "p < e" using p(1) ne by arith
    have "p = s"
    proof (rule ccontr)
      assume "p \<noteq> s"
      then consider "s < p" | "p < s" by arith
      then show False
      proof cases
        case 1
        with eqo_D [OF inner, of p] p pe have "odd (backslash_run json p)" by simp
        with p(3) show False by simp
      next
        case 2
        with eqo_D [OF p(4), of s] q se have "odd (backslash_run json s)" by simp
        with run0 show False by simp
      qed
    qed
    with Inr ne show ?thesis by (simp add: rfind_opening_quote_def)
  next
    case (Inl err)
    from roq_loop_Inl [OF Inl l]
    consider (all) "escaped_quotes_only json 0 e"
      | (ex) p where "p \<le> e - 1" "json ! p = DQ" "even (backslash_run json p)"
          "0 < backslash_run json p" "escaped_quotes_only json (Suc p) e"
      unfolding s by blast
    then have False
    proof cases
      case all
      with eqo_D [OF all, of s] q se have "odd (backslash_run json s)" by simp
      with run0 show False by simp
    next
      case ex
      have pe: "p < e" using ex(1) ne by arith
      consider "s < p" | "p = s" | "p < s" by arith
      then show False
      proof cases
        case 1
        with eqo_D [OF inner, of p] ex pe have "odd (backslash_run json p)" by simp
        with ex(3) show False by simp
      next
        case 2
        with ex(4) run0 show False by simp
      next
        case 3
        with eqo_D [OF ex(5), of s] q se have "odd (backslash_run json s)" by simp
        with run0 show False by simp
      qed
    qed
    then show ?thesis ..
  qed
qed

text \<open>
  C8. For an opening quote at offset \<open>opening\<close>, \<open>find_closing_quote\<close> returns the offset of the
  first quote behind it at which the escaped flag is clear, and throws \<open>MalformedJson\<close> when
  every quote behind it, up to the end of the buffer, is met with the flag set. The flag
  is set exactly when an odd run of backslashes precedes the offset.
\<close>

theorem find_closing_quote_first_unescaped:
  assumes "opening < length json" and "json ! opening = DQ"
  shows "(case find_closing_quote json opening of
            Inr q \<Rightarrow> opening < q \<and> q < length json \<and> json ! q = DQ \<and>
              \<not> escaped_at json opening q \<and>
              (\<forall>k. opening < k \<and> k < q \<and> json ! k = DQ \<longrightarrow> escaped_at json opening k)
          | Inl e \<Rightarrow> e = MalformedJson \<and>
              (\<forall>k. opening < k \<and> k < length json \<and> json ! k = DQ \<longrightarrow> escaped_at json opening k))
         \<and> (\<forall>i. opening < i \<and> i \<le> length json \<longrightarrow>
               escaped_at json opening i = odd (backslash_run json i))"
proof (intro conjI allI impI)
  have start: "opening < opening + 1" "False = escaped_at json opening (opening + 1)"
    by (simp_all add: escaped_at_start)
  show "case find_closing_quote json opening of
      Inr q \<Rightarrow> opening < q \<and> q < length json \<and> json ! q = DQ \<and>
        \<not> escaped_at json opening q \<and>
        (\<forall>k. opening < k \<and> k < q \<and> json ! k = DQ \<longrightarrow> escaped_at json opening k)
    | Inl e \<Rightarrow> e = MalformedJson \<and>
        (\<forall>k. opening < k \<and> k < length json \<and> json ! k = DQ \<longrightarrow> escaped_at json opening k)"
  proof (cases "find_closing_quote json opening")
    case (Inl e)
    then have "fcq_loop json (opening + 1) False = Inl e"
      by (simp add: find_closing_quote_def)
    from fcq_loop_Inl [OF this start] Inl show ?thesis
      by (simp add: Suc_le_eq)
  next
    case (Inr q)
    then have "fcq_loop json (opening + 1) False = Inr q"
      by (simp add: find_closing_quote_def)
    from fcq_loop_Inr [OF this start] Inr show ?thesis
      by (simp add: Suc_le_eq)
  qed
next
  fix i
  assume "opening < i \<and> i \<le> length json"
  with assms(2) show "escaped_at json opening i = odd (backslash_run json i)"
    by (intro escaped_at_odd_run) simp_all
qed

theorem find_closing_quote_first_unescaped_witness:
  "find_closing_quote [DQ, CHR ''a'', BS, DQ, CHR ''b'', DQ] 0 = Inr 5 \<and>
   escaped_at [DQ, CHR ''a'', BS, DQ, CHR ''b'', DQ] 0 3 \<and>
   \<not> escaped_at [DQ, CHR ''a'', BS, DQ, CHR ''b'', DQ] 0 5 \<and>
   find_closing_quote [DQ, CHR ''a'', BS, DQ] 0 = Inl MalformedJson"
proof -
  let ?J = "[DQ, CHR ''a'', BS, DQ, CHR ''b'', DQ]"
  let ?K = "[DQ, CHR ''a'', BS, DQ]"
  have r: "find_closing_quote ?J 0 = Inr 5"
    by (simp add: find_closing_quote_def fcq_loop.simps)
  have h: "0 < length ?J" "?J ! 0 = DQ" by simp_all
  from find_closing_quote_first_unescaped [OF h] r
  have "\<not> escaped_at ?J 0 5 \<and> escaped_at ?J 0 3" by simp
  moreover have k: "0 < length ?K" "?K ! 0 = DQ" by simp_all
  have "find_closing_quote ?K 0 = Inl MalformedJson"
    using find_closing_quote_first_unescaped [OF k]
    by (simp add: find_closing_quote_def fcq_loop.simps)
  ultimately show ?thesis using r by simp
qed

text \<open>
  C5, as the code has it. \<open>count_preceeding_backslashes\<close> is the length of the run of
  backslashes before an offset. Scanning backward from a closing quote,
  \<open>rfind_opening_quote\<close> skips every quote that follows an odd run and stops at the first quote
  that does not: it returns that quote's offset when no backslash precedes it, and throws
  \<open>MalformedJson\<close> when a non-empty even run precedes it, or when no such quote exists.
\<close>

theorem rfind_opening_quote_backslash_runs:
  assumes "closing \<le> length json"
  shows "(\<forall>i. i \<le> length json \<longrightarrow> count_preceeding_backslashes json i = backslash_run json i) \<and>
     (case rfind_opening_quote json closing of
        Inr q \<Rightarrow> q < closing \<and> json ! q = DQ \<and> backslash_run json q = 0 \<and>
          escaped_quotes_only json (Suc q) closing
      | Inl e \<Rightarrow> e = MalformedJson \<and>
          (escaped_quotes_only json 0 closing \<or>
           (\<exists>q<closing. json ! q = DQ \<and> even (backslash_run json q) \<and> 0 < backslash_run json q \<and>
              escaped_quotes_only json (Suc q) closing)))"
proof (intro conjI allI impI)
  fix i
  assume "i \<le> length json"
  then show "count_preceeding_backslashes json i = backslash_run json i"
    by (rule count_preceeding_backslashes_run)
next
  show "case rfind_opening_quote json closing of
      Inr q \<Rightarrow> q < closing \<and> json ! q = DQ \<and> backslash_run json q = 0 \<and>
        escaped_quotes_only json (Suc q) closing
    | Inl e \<Rightarrow> e = MalformedJson \<and>
        (escaped_quotes_only json 0 closing \<or>
         (\<exists>q<closing. json ! q = DQ \<and> even (backslash_run json q) \<and> 0 < backslash_run json q \<and>
            escaped_quotes_only json (Suc q) closing))"
  proof (cases "closing = 0")
    case True
    then show ?thesis by (simp add: rfind_opening_quote_def)
  next
    case False
    then have s: "Suc (closing - 1) = closing" and l: "closing - 1 < length json"
      using assms by simp_all
    show ?thesis
    proof (cases "rfind_opening_quote json closing")
      case (Inl e)
      with False have "roq_loop json (closing - 1) = Inl e"
        by (simp add: rfind_opening_quote_def)
      from roq_loop_Inl [OF this l] have "e = MalformedJson \<and>
        (escaped_quotes_only json 0 closing \<or>
          (\<exists>q\<le>closing - 1. json ! q = DQ \<and> even (backslash_run json q) \<and>
             0 < backslash_run json q \<and> escaped_quotes_only json (Suc q) closing))"
        unfolding s .
      moreover have "\<And>q. q \<le> closing - 1 \<Longrightarrow> q < closing" using False by simp
      ultimately show ?thesis using Inl by auto
    next
      case (Inr q)
      with False have "roq_loop json (closing - 1) = Inr q"
        by (simp add: rfind_opening_quote_def)
      from roq_loop_Inr [OF this l] have "q \<le> closing - 1 \<and> json ! q = DQ \<and>
        backslash_run json q = 0 \<and> escaped_quotes_only json (Suc q) closing"
        unfolding s .
      moreover from this False have "q < closing" by arith
      ultimately show ?thesis using Inr by simp
    qed
  qed
qed

theorem rfind_opening_quote_backslash_runs_witness:
  "rfind_opening_quote [DQ, CHR ''a'', BS, DQ, CHR ''b'', DQ] 5 = Inr 0 \<and>
   count_preceeding_backslashes [DQ, CHR ''a'', BS, DQ, CHR ''b'', DQ] 3 = 1 \<and>
   backslash_run [DQ, CHR ''a'', BS, DQ, CHR ''b'', DQ] 3 = 1 \<and>
   escaped_quotes_only [DQ, CHR ''a'', BS, DQ, CHR ''b'', DQ] 1 5"
proof -
  let ?J = "[DQ, CHR ''a'', BS, DQ, CHR ''b'', DQ]"
  have c: "count_preceeding_backslashes ?J 3 = 1"
    by (simp add: count_preceeding_backslashes_def cpb_loop.simps)
  have r: "rfind_opening_quote ?J 5 = Inr 0"
    by (simp add: rfind_opening_quote_def roq_loop.simps count_preceeding_backslashes_def
        cpb_loop.simps)
  have h: "5 \<le> length ?J" by simp
  from rfind_opening_quote_backslash_runs [OF h] r c show ?thesis by simp
qed

text \<open>
  The claim as written promises the offset of a quote that follows a non-empty even run. In
  the five bytes \<^verbatim>\<open>\\"a"\<close> the quote at offset 2 follows two backslashes; the scan from the
  closing quote at offset 4 meets it first and throws.
\<close>

theorem rfind_opening_quote_even_run_counterexample:
  "[BS, BS, DQ, CHR ''a'', DQ] ! 2 = DQ \<and>
   count_preceeding_backslashes [BS, BS, DQ, CHR ''a'', DQ] 2 = 2 \<and>
   [BS, BS, DQ, CHR ''a'', DQ] ! 3 \<noteq> DQ \<and>
   rfind_opening_quote [BS, BS, DQ, CHR ''a'', DQ] 4 = Inl MalformedJson"
proof -
  have c: "count_preceeding_backslashes [BS, BS, DQ, CHR ''a'', DQ] 2 = 2"
    by (simp add: count_preceeding_backslashes_def cpb_loop.simps)
  then show ?thesis
    by (simp add: rfind_opening_quote_def roq_loop.simps)
qed

section \<open>Properties of the brace walks\<close>

lemma fcb_loop_result:
  "fcb_loop json i tos rest = Inr c \<Longrightarrow>
   i \<le> c \<and> c < length json \<and> (json ! c = CHR ''}'' \<or> json ! c = CHR '']'')"
proof (induction json i tos rest rule: fcb_loop.induct)
  case (1 json i tos rest)
  from "1.prems" have len: "i < length json"
    by (subst (asm) fcb_loop.simps) (simp split: if_splits)
  show ?case
  proof (cases "json ! i = DQ")
    case True
    with "1.prems" len obtain q where fq: "find_closing_quote json i = Inr q"
      and rec: "fcb_loop json (q + 1) tos rest = Inr c"
      by (subst (asm) fcb_loop.simps) (auto split: sum.splits)
    from "1.IH"(1) [OF len True fq rec] find_closing_quote_bounds [OF fq]
    show ?thesis by simp
  next
    case nq: False
    show ?thesis
    proof (cases "json ! i = CHR ''{'' \<or> json ! i = CHR ''[''")
      case True
      with "1.prems" len nq have rec: "fcb_loop json (i + 1) (closer_of (json ! i)) (tos # rest) = Inr c"
        by (subst (asm) fcb_loop.simps) simp
      from "1.IH"(2) [OF len nq True rec] show ?thesis by simp
    next
      case no: False
      show ?thesis
      proof (cases "json ! i = CHR ''}'' \<or> json ! i = CHR '']''")
        case True
        show ?thesis
        proof (cases rest)
          case Nil
          with "1.prems" len nq no True have "c = i"
            by (subst (asm) fcb_loop.simps) (simp split: if_splits)
          with len True show ?thesis by simp
        next
          case (Cons t r)
          with "1.prems" len nq no True have m: "json ! i = tos"
            and rec: "fcb_loop json (i + 1) t r = Inr c"
            by (subst (asm) fcb_loop.simps, simp split: if_splits)+
          from "1.IH"(3) [OF len nq no True m Cons rec] show ?thesis by simp
        qed
      next
        case False
        with "1.prems" len nq no have rec: "fcb_loop json (i + 1) tos rest = Inr c"
          by (subst (asm) fcb_loop.simps) simp
        from "1.IH"(4) [OF len nq no False rec] show ?thesis by simp
      qed
    qed
  qed
qed

lemma fcb_loop_reverse:
  "fcb_loop json i tos rest = Inr c \<Longrightarrow> 0 < i \<Longrightarrow>
   \<forall>s\<in>set (opening_quotes json i c). json ! (s - 1) \<noteq> BS \<Longrightarrow>
   rob_loop json (c - 1) (opener_of (json ! c)) [] =
   rob_loop json (i - 1) (opener_of tos) (map opener_of rest)"
proof (induction json i tos rest rule: fcb_loop.induct)
  case (1 json i tos rest)
  from "1.prems"(1) have len: "i < length json"
    by (subst (asm) fcb_loop.simps) (simp split: if_splits)
  note pos = \<open>0 < i\<close>
  show ?case
  proof (cases "json ! i = DQ")
    case quote: True
    with "1.prems"(1) len obtain q where fq: "find_closing_quote json i = Inr q"
      and rec: "fcb_loop json (q + 1) tos rest = Inr c"
      by (subst (asm) fcb_loop.simps) (auto split: sum.splits)
    from find_closing_quote_spec [OF fq quote] have iq: "i < q" and qq: "json ! q = DQ"
      by simp_all
    from fcb_loop_result [OF rec] have qc: "q + 1 \<le> c" by simp
    have "opening_quotes json i c = i # opening_quotes json (q + 1) c"
      using len quote fq iq qc by (subst opening_quotes.simps) simp
    with "1.prems"(3) have nb: "json ! (i - 1) \<noteq> BS"
      and later: "\<forall>s\<in>set (opening_quotes json (q + 1) c). json ! (s - 1) \<noteq> BS"
      by simp_all
    have "rob_loop json (c - 1) (opener_of (json ! c)) [] =
        rob_loop json (q + 1 - 1) (opener_of tos) (map opener_of rest)"
      by (rule "1.IH"(1) [OF len quote fq rec _ later]) simp
    also have "\<dots> = rob_loop json (i - 1) (opener_of tos) (map opener_of rest)"
      using qq string_roundtrip [OF fq quote pos nb] pos
      by (subst rob_loop.simps) simp
    finally show ?thesis .
  next
    case nq: False
    show ?thesis
    proof (cases "json ! i = CHR ''{'' \<or> json ! i = CHR ''[''")
      case opn: True
      with "1.prems"(1) len nq
      have rec: "fcb_loop json (i + 1) (closer_of (json ! i)) (tos # rest) = Inr c"
        by (subst (asm) fcb_loop.simps) simp
      from fcb_loop_result [OF rec] have ic: "i + 1 \<le> c" by simp
      have "opening_quotes json i c = opening_quotes json (i + 1) c"
        using len nq ic by (subst opening_quotes.simps) simp
      with "1.prems"(3)
      have later: "\<forall>s\<in>set (opening_quotes json (i + 1) c). json ! (s - 1) \<noteq> BS"
        by simp
      have "rob_loop json (c - 1) (opener_of (json ! c)) [] =
          rob_loop json (i + 1 - 1) (opener_of (closer_of (json ! i))) (map opener_of (tos # rest))"
        by (rule "1.IH"(2) [OF len nq opn rec _ later]) simp
      also have "\<dots> = rob_loop json (i - 1) (opener_of tos) (map opener_of rest)"
        using opn nq pos by (subst rob_loop.simps) auto
      finally show ?thesis .
    next
      case no: False
      show ?thesis
      proof (cases "json ! i = CHR ''}'' \<or> json ! i = CHR '']''")
        case cls: True
        show ?thesis
        proof (cases rest)
          case Nil
          with "1.prems"(1) len nq no cls have "c = i" and "json ! i = tos"
            by (subst (asm) fcb_loop.simps, simp split: if_splits)+
          then show ?thesis using Nil by simp
        next
          case (Cons t r)
          with "1.prems"(1) len nq no cls have m: "json ! i = tos"
            and rec: "fcb_loop json (i + 1) t r = Inr c"
            by (subst (asm) fcb_loop.simps, simp split: if_splits)+
          from fcb_loop_result [OF rec] have ic: "i + 1 \<le> c" by simp
          have "opening_quotes json i c = opening_quotes json (i + 1) c"
            using len nq ic by (subst opening_quotes.simps) simp
          with "1.prems"(3)
          have later: "\<forall>s\<in>set (opening_quotes json (i + 1) c). json ! (s - 1) \<noteq> BS"
            by simp
          have "rob_loop json (c - 1) (opener_of (json ! c)) [] =
              rob_loop json (i + 1 - 1) (opener_of t) (map opener_of r)"
            by (rule "1.IH"(3) [OF len nq no cls m Cons rec _ later]) simp
          also have "\<dots> = rob_loop json (i - 1) (opener_of tos) (map opener_of rest)"
            using cls nq pos m Cons by (subst rob_loop.simps) auto
          finally show ?thesis .
        qed
      next
        case plain: False
        with "1.prems"(1) len nq no have rec: "fcb_loop json (i + 1) tos rest = Inr c"
          by (subst (asm) fcb_loop.simps) simp
        from fcb_loop_result [OF rec] have ic: "i + 1 \<le> c" by simp
        have "opening_quotes json i c = opening_quotes json (i + 1) c"
          using len nq ic by (subst opening_quotes.simps) simp
        with "1.prems"(3)
        have later: "\<forall>s\<in>set (opening_quotes json (i + 1) c). json ! (s - 1) \<noteq> BS"
          by simp
        have "rob_loop json (c - 1) (opener_of (json ! c)) [] =
            rob_loop json (i + 1 - 1) (opener_of tos) (map opener_of rest)"
          by (rule "1.IH"(4) [OF len nq no plain rec _ later]) simp
        also have "\<dots> = rob_loop json (i - 1) (opener_of tos) (map opener_of rest)"
          using plain nq no pos by (subst rob_loop.simps) simp
        finally show ?thesis .
      qed
    qed
  qed
qed

text \<open>
  C6. The two bytes \<^verbatim>\<open>[{\<close> hold an opening brace at offset 1 and no closing brace at all,
  yet \<open>find_matching_brace\<close> returns offset 0 for it instead of throwing: the opening brace is
  the last byte, so the call falls through to the backward search for \<^verbatim>\<open>[\<close>.
\<close>

theorem find_matching_brace_last_byte_returns_offset:
  "''[{'' ! 1 = CHR ''{'' \<and> CHR ''}'' \<notin> set ''[{'' \<and> find_matching_brace ''[{'' 1 = Inr 0"
  by (simp add: nav_eval)

text \<open>
  C10, as the code has it. If \<open>find_matching_brace\<close> at an opening brace returns the offset of
  a closing brace, and no string that the forward walk skipped between the two braces
  begins with a quote that directly follows a backslash, then \<open>find_matching_brace\<close> at the
  returned offset returns the offset of the opening brace.
\<close>

theorem find_matching_brace_round_trip:
  assumes inr: "offset < length json"
    and isopen: "json ! offset = CHR ''{'' \<or> json ! offset = CHR ''[''"
    and found: "find_matching_brace json offset = Inr c"
    and isclose: "json ! c = CHR ''}'' \<or> json ! c = CHR '']''"
    and strings: "\<forall>s\<in>set (opening_quotes json (offset + 1) c). json ! (s - 1) \<noteq> BS"
  shows "find_matching_brace json c = Inr offset"
proof -
  have fwd: "offset + 1 < length json"
  proof (rule ccontr)
    assume "\<not> offset + 1 < length json"
    with found isopen have "rob_loop json (offset - 1) (opener_of (json ! offset)) [] = Inr c"
      by (auto simp: find_matching_brace_def rfind_opening_brace_def split: if_splits)
    from rob_loop_result [OF this] isclose show False by auto
  qed
  with found isopen have f: "fcb_loop json (offset + 1) (closer_of (json ! offset)) [] = Inr c"
    by (auto simp: find_matching_brace_def find_closing_brace_def)
  from fcb_loop_result [OF f] have c: "offset + 1 \<le> c" by simp
  have "rob_loop json (c - 1) (opener_of (json ! c)) [] =
      rob_loop json (offset + 1 - 1) (opener_of (closer_of (json ! offset))) (map opener_of [])"
    by (rule fcb_loop_reverse [OF f _ strings]) simp
  also have "\<dots> = Inr offset"
    using isopen by (subst rob_loop.simps) auto
  finally have "rob_loop json (c - 1) (opener_of (json ! c)) [] = Inr offset" .
  with isclose c show ?thesis
    by (auto simp: find_matching_brace_def rfind_opening_brace_def)
qed

theorem find_matching_brace_round_trip_witness:
  "find_matching_brace (''{'' @ [DQ, CHR ''a'', BS, DQ, DQ] @ '':[1,{}]}'') 0 = Inr 13 \<and>
   opening_quotes (''{'' @ [DQ, CHR ''a'', BS, DQ, DQ] @ '':[1,{}]}'') 1 13 = [1] \<and>
   find_matching_brace (''{'' @ [DQ, CHR ''a'', BS, DQ, DQ] @ '':[1,{}]}'') 13 = Inr 0"
proof -
  let ?J = "''{'' @ [DQ, CHR ''a'', BS, DQ, DQ] @ '':[1,{}]}''"
  have a: "0 < length ?J" "?J ! 0 = CHR ''{'' \<or> ?J ! 0 = CHR ''[''" by simp_all
  have b: "find_matching_brace ?J 0 = Inr 13" by (simp add: nav_eval)
  have c: "?J ! 13 = CHR ''}'' \<or> ?J ! 13 = CHR '']''" by simp
  have d: "opening_quotes ?J 1 13 = [1]"
    by (simp add: opening_quotes.simps find_closing_quote_def fcq_loop.simps)
  then have e: "\<forall>s\<in>set (opening_quotes ?J (0 + 1) 13). ?J ! (s - 1) \<noteq> BS" by simp
  from find_matching_brace_round_trip [OF a b c e] b d show ?thesis by simp
qed

text \<open>
  Without the condition on the strings the round trip fails. In \<^verbatim>\<open>{\"a"}\<close> the forward walk
  from offset 0 skips the string that begins at the quote behind the backslash and returns
  offset 5; the backward walk from offset 5 takes that quote for an escaped one and throws.
\<close>

theorem find_matching_brace_round_trip_counterexample:
  "[CHR ''{'', BS, DQ, CHR ''a'', DQ, CHR ''}''] ! 0 = CHR ''{'' \<and>
   find_matching_brace [CHR ''{'', BS, DQ, CHR ''a'', DQ, CHR ''}''] 0 = Inr 5 \<and>
   [CHR ''{'', BS, DQ, CHR ''a'', DQ, CHR ''}''] ! 5 = CHR ''}'' \<and>
   find_matching_brace [CHR ''{'', BS, DQ, CHR ''a'', DQ, CHR ''}''] 5 = Inl MalformedJson"
  by (simp add: nav_eval)

section \<open>The container header\<close>

text \<open>
  C7, as the code has it. \<open>read_save_file_header\<close> throws \<open>InvalidFormat\<close> when the file is
  shorter than the header, and when the magic number mismatches or one of the four sizes is
  not positive, whatever the version; it throws \<open>UnsupportedVersion\<close> with the version it
  read when the magic number matches, the four sizes are positive and the version is not 4.
\<close>

theorem read_save_file_header_errors:
  "(length file_data < sizeof_SaveFileHeader \<longrightarrow>
      read_save_file_header file_data = Inl InvalidFormat) \<and>
   (sizeof_SaveFileHeader \<le> length file_data \<and>
      (read_int file_data 0 \<noteq> mm_save_file_magic \<or> read_int file_data 8 \<le> 0 \<or>
       read_int file_data 12 \<le> 0 \<or> read_int file_data 16 \<le> 0 \<or> read_int file_data 20 \<le> 0) \<longrightarrow>
      read_save_file_header file_data = Inl InvalidFormat) \<and>
   (sizeof_SaveFileHeader \<le> length file_data \<and> read_int file_data 0 = mm_save_file_magic \<and>
      0 < read_int file_data 8 \<and> 0 < read_int file_data 12 \<and> 0 < read_int file_data 16 \<and>
      0 < read_int file_data 20 \<and> read_int file_data 4 \<noteq> mm_save_file_supported_version \<longrightarrow>
      read_save_file_header file_data = Inl (UnsupportedVersion (read_int file_data 4)))"
  by (auto simp: read_save_file_header_def header_at_def Let_def)

theorem read_save_file_header_errors_witness:
  "read_save_file_header (example_header 5 1) = Inl (UnsupportedVersion 5) \<and>
   read_save_file_header (take 23 (example_header 4 1)) = Inl InvalidFormat \<and>
   read_save_file_header (example_header 4 0) = Inl InvalidFormat"
proof -
  have a: "sizeof_SaveFileHeader \<le> length (example_header 5 1) \<and>
      read_int (example_header 5 1) 0 = mm_save_file_magic \<and>
      0 < read_int (example_header 5 1) 8 \<and> 0 < read_int (example_header 5 1) 12 \<and>
      0 < read_int (example_header 5 1) 16 \<and> 0 < read_int (example_header 5 1) 20 \<and>
      read_int (example_header 5 1) 4 \<noteq> mm_save_file_supported_version"
    by (simp add: header_eval)
  have v: "read_int (example_header 5 1) 4 = 5" by (simp add: header_eval)
  have b: "length (take 23 (example_header 4 1)) < sizeof_SaveFileHeader"
    by (simp add: header_eval)
  have c: "sizeof_SaveFileHeader \<le> length (example_header 4 0) \<and>
      (read_int (example_header 4 0) 0 \<noteq> mm_save_file_magic \<or> read_int (example_header 4 0) 8 \<le> 0 \<or>
       read_int (example_header 4 0) 12 \<le> 0 \<or> read_int (example_header 4 0) 16 \<le> 0 \<or>
       read_int (example_header 4 0) 20 \<le> 0)"
    by (simp add: header_eval)
  from read_save_file_header_errors [of "example_header 5 1"] a v
  have "read_save_file_header (example_header 5 1) = Inl (UnsupportedVersion 5)" by simp
  moreover from read_save_file_header_errors [of "take 23 (example_header 4 1)"] b
  have "read_save_file_header (take 23 (example_header 4 1)) = Inl InvalidFormat" by blast
  moreover from read_save_file_header_errors [of "example_header 4 0"] c
  have "read_save_file_header (example_header 4 0) = Inl InvalidFormat" by blast
  ultimately show ?thesis by simp
qed

text \<open>
  The claim as written asks for \<open>UnsupportedVersion\<close> whenever the magic number matches and
  the version differs from 4. The sizes are checked first: a header with version 5 and a
  compressed info size of 0 is rejected with \<open>InvalidFormat\<close>.
\<close>

theorem read_save_file_header_version_gate_counterexample:
  "sizeof_SaveFileHeader \<le> length (example_header 5 0) \<and>
   read_int (example_header 5 0) 0 = mm_save_file_magic \<and>
   read_int (example_header 5 0) 4 = 5 \<and>
   5 \<noteq> mm_save_file_supported_version \<and>
   read_save_file_header (example_header 5 0) = Inl InvalidFormat \<and>
   read_save_file_header (example_header 5 0) \<noteq> Inl (UnsupportedVersion 5)"
  by (simp add: header_eval)

section \<open>The patched buffers\<close>

lemma size_t_step:
  "int (size_t_add (size_t_sub n a) b) = (int n - int a + int b) mod 2 ^ 64"
proof -
  have "int (size_t_add (size_t_sub n a) b) = ((int n - int a) mod 2 ^ 64 + int b) mod 2 ^ 64"
    by (simp add: size_t_add_def size_t_sub_def zmod_int)
  also have "\<dots> = (int n - int a + int b) mod 2 ^ 64"
    by (simp add: mod_add_left_eq)
  finally show ?thesis .
qed

lemma data_out_size_mod:
  "int (data_out_size n ds) = (if ds = [] then int n else (int n + sum_list (map token_delta ds)) mod 2 ^ 64)"
proof (induction ds arbitrary: n)
  case Nil
  then show ?case by (simp add: data_out_size_def)
next
  case (Cons d ds)
  let ?n' = "size_t_add (size_t_sub n (token_length (original_position d))) (token_length (position d))"
  have unfold: "data_out_size n (d # ds) = data_out_size ?n' ds"
    by (simp add: data_out_size_def token_length_def)
  have "int n - int (token_length (original_position d)) + int (token_length (position d))
      = int n + token_delta d"
    by (auto simp: token_delta_def)
  then have step: "int ?n' = (int n + token_delta d) mod 2 ^ 64"
    by (simp only: size_t_step)
  show ?case
  proof (cases "ds = []")
    case True
    with unfold step show ?thesis by (simp add: data_out_size_def)
  next
    case False
    with Cons.IH [of ?n'] step unfold
    have "int (data_out_size n (d # ds)) =
        ((int n + token_delta d) mod 2 ^ 64 + sum_list (map token_delta ds)) mod 2 ^ 64"
      by simp
    also have "\<dots> = (int n + token_delta d + sum_list (map token_delta ds)) mod 2 ^ 64"
      by (simp add: mod_add_left_eq)
    finally show ?thesis by (simp add: add.assoc)
  qed
qed

lemma data_out_size_exact:
  assumes "0 \<le> int n + sum_list (map token_delta ds)"
    and "int n + sum_list (map token_delta ds) < 2 ^ 64"
  shows "int (data_out_size n ds) = int n + sum_list (map token_delta ds)"
  using assms data_out_size_mod [of n ds] by (cases "ds = []") simp_all

lemma size_t_sub_exact: "b \<le> a \<Longrightarrow> a < 2 ^ 64 \<Longrightarrow> size_t_sub a b = a - b"
proof -
  assume le: "b \<le> a" and lt: "a < 2 ^ 64"
  have "0 \<le> int a - int b" "int a - int b < 2 ^ 64" using le lt by auto
  then have "(int a - int b) mod 2 ^ 64 = int a - int b" by (rule mod_pos_pos_trivial)
  with le show ?thesis by (simp add: size_t_sub_def nat_diff_distrib')
qed

lemma size_t_add_exact: "a + b < 2 ^ 64 \<Longrightarrow> size_t_add a b = a + b"
  by (simp add: size_t_add_def)





lemma tokens_ascending_sorted:
  "tokens_ascending lo ds \<Longrightarrow>
   sorted (map car_id_file_offset ds) \<and> (\<forall>d\<in>set ds. lo \<le> car_id_file_offset d)"
proof (induction ds arbitrary: lo)
  case Nil
  then show ?case by simp
next
  case (Cons d ds)
  from Cons.prems have "tokens_ascending (car_id_file_offset d + token_length (original_position d)) ds"
    and lo: "lo \<le> car_id_file_offset d"
    by simp_all
  from Cons.IH [OF this(1)] lo show ?case by fastforce
qed







lemma copy_info_fills:
  assumes "off + sz \<le> length info" "length info < 2 ^ 64"
  shows "copy_info info off sz new_name ([], length info - sz + length new_name)
     = Inr (take off info @ new_name @ drop (off + sz) info, 0)"
proof -
  define before_name where "before_name = take off info"
  define after_name where "after_name = drop (off + sz) info"
  have lb: "length before_name = off" and la: "length after_name = length info - (off + sz)"
    using assms(1) by (simp_all add: before_name_def after_name_def)
  have s1: "substr info 0 off = Inr before_name"
    by (simp add: substr_def before_name_def)
  have "size_t_add off sz = off + sz"
    using assms by (intro size_t_add_exact) simp
  then have s2: "substr_from info (size_t_add off sz) = Inr after_name"
    using assms(1) by (simp add: substr_from_def after_name_def)
  have fits: "\<not> off > length info - sz + length new_name"
    and left: "length info - sz + length new_name - off = length info - (off + sz) + length new_name"
    using assms(1) by arith+
  have c1: "copy_to_buffer before_name ([], length info - sz + length new_name)
      = Inr (before_name, length after_name + length new_name)"
    by (simp add: copy_to_buffer_def lb la fits left)
  have c2: "copy_to_buffer new_name (before_name, length after_name + length new_name)
      = Inr (before_name @ new_name, length after_name)"
    by (simp add: copy_to_buffer_def)
  have c3: "copy_to_buffer after_name (before_name @ new_name, length after_name)
      = Inr (before_name @ new_name @ after_name, 0)"
    by (simp add: copy_to_buffer_def)
  show ?thesis
    unfolding copy_info_def s1 s2 by (simp add: c1 c2 c3 flip: before_name_def after_name_def)
qed





lemma get_save_name_bounds:
  assumes "get_save_name save_info = Some (Inr (off, sz))"
  shows "off + sz \<le> length save_info"
proof -
  from assms obtain v cq where "find_closing_quote save_info v = Inr cq"
    and "off = v + 1" and "sz = cq - (v + 1)"
    by (auto simp: get_save_name_def split: option.splits sum.splits if_splits)
  with find_closing_quote_bounds [of save_info v cq] show ?thesis by simp
qed

lemma copy_drivers_unchanged:
  "\<forall>d\<in>set ds. position d = original_position d \<Longrightarrow> copy_drivers data ds lo b = Inr (lo, b)"
  by (induction ds) simp_all

lemma token_delta_unchanged:
  "\<forall>d\<in>set ds. position d = original_position d \<Longrightarrow> sum_list (map token_delta ds) = 0"
  by (induction ds) (simp_all add: token_delta_def)

text \<open>
  C1. For a save name location found by \<open>get_save_name\<close>, building the patched buffers with
  the original save name and with every driver's position equal to its original position
  returns the original info buffer and the original data buffer.
\<close>

theorem create_uncompressed_output_no_op:
  assumes name: "get_save_name save_info = Some (Inr (save_name_offset, save_name_size))"
    and isz: "length save_info < 2 ^ 64" and dsz: "length save_data < 2 ^ 64"
    and same: "\<forall>d\<in>set drivers. position d = original_position d"
  shows "create_uncompressed_output save_info save_data save_name_offset save_name_size
           (take save_name_size (drop save_name_offset save_info)) drivers
         = Inr (save_info, save_data)"
proof -
  define save_name where "save_name = take save_name_size (drop save_name_offset save_info)"
  note nm = get_save_name_bounds [OF name]
  then have ln: "length save_name = save_name_size" by (simp add: save_name_def)
  have "size_t_sub (length save_info) save_name_size = length save_info - save_name_size"
    using nm isz by (intro size_t_sub_exact) simp_all
  moreover have "size_t_add (length save_info - save_name_size) save_name_size = length save_info"
    using nm isz by (simp add: size_t_add_exact)
  ultimately have icap: "size_t_add (size_t_sub (length save_info) save_name_size) (length save_name)
      = length save_info - save_name_size + length save_name"
    using nm by (simp add: ln)
  have "int (data_out_size (length save_data) drivers) = int (length save_data)"
    using data_out_size_exact [of "length save_data" drivers] dsz token_delta_unchanged [OF same]
    by simp
  then have dcap: "data_out_size (length save_data) drivers = length save_data" by simp
  have whole: "take save_name_offset save_info @ save_name @
      drop (save_name_offset + save_name_size) save_info = save_info"
    unfolding save_name_def by (metis append_take_drop_id drop_drop add.commute)
  have i: "copy_info save_info save_name_offset save_name_size save_name
       ([], length save_info - save_name_size + length save_name) = Inr (save_info, 0)"
    using copy_info_fills [OF nm isz, of save_name] whole by simp
  have d: "copy_data save_data drivers ([], length save_data) = Inr (save_data, 0)"
    by (simp add: copy_data_def copy_drivers_unchanged [OF same] substr_from_def copy_to_buffer_def)
  have "create_uncompressed_output save_info save_data save_name_offset save_name_size
           save_name drivers = Inr (save_info, save_data)"
    unfolding create_uncompressed_output_def create_uncompressed_output_buffer_def icap dcap
    by (simp add: i d)
  then show ?thesis by (simp only: save_name_def)
qed

theorem create_uncompressed_output_no_op_witness:
  "get_save_name example_info = Some (Inr (30, 3)) \<and>
   create_uncompressed_output example_info example_data 30 3 ''abc'' unchanged_drivers
     = Inr (example_info, example_data)"
proof -
  have n: "get_save_name example_info = Some (Inr (30, 3))" by code_simp
  have i: "length example_info < 2 ^ 64" and d: "length example_data < 2 ^ 64"
    by (simp_all add: example_info_def example_data_def)
  have s: "\<forall>d\<in>set unchanged_drivers. position d = original_position d"
    by (simp add: unchanged_drivers_def new_Driver_def)
  have "take 3 (drop 30 example_info) = ''abc''" by (simp add: example_info_def)
  with create_uncompressed_output_no_op [OF n i d s] n show ?thesis by simp
qed

section \<open>The extraction of the drivers\<close>

subsection \<open>The stored records\<close>

lemma take_1_drop: "off < length xs \<Longrightarrow> take (Suc 0) (drop off xs) = [xs ! off]"
  by (simp add: take_Suc_conv_app_nth)

lemma take_2_drop:
  "off + 1 < length xs \<Longrightarrow> take (Suc (Suc 0)) (drop off xs) = [xs ! off, xs ! (off + 1)]"
  by (simp add: take_Suc_conv_app_nth)

lemma parse_driver_position_token:
  assumes "parse_driver_position json off = Inr p"
  shows "token_at json off p"
proof -
  from assms have len: "off + 2 < length json"
    by (simp add: parse_driver_position_def split: if_splits)
  show ?thesis
  proof (cases p)
    case reserve
    with assms len have "json ! off = CHR ''-''" "json ! (off + 1) = CHR ''1''"
      "json ! (off + 2) = CHR '','' \<or> json ! (off + 2) = CHR ''}''"
      by (auto simp: parse_driver_position_def split: if_splits)
    with len reserve take_2_drop [of off json] show ?thesis
      by (simp add: token_at_def get_position_as_json_value_def)
  next
    case car1
    with assms len have "json ! off = CHR ''0''"
      "json ! (off + 1) = CHR '','' \<or> json ! (off + 1) = CHR ''}''"
      by (auto simp: parse_driver_position_def split: if_splits)
    with len car1 take_1_drop [of off json] show ?thesis
      by (simp add: token_at_def get_position_as_json_value_def)
  next
    case car2
    with assms len have "json ! off = CHR ''1''"
      "json ! (off + 1) = CHR '','' \<or> json ! (off + 1) = CHR ''}''"
      by (auto simp: parse_driver_position_def split: if_splits)
    with len car2 take_1_drop [of off json] show ?thesis
      by (simp add: token_at_def get_position_as_json_value_def)
  qed
qed

lemma maybe_get_driver_decodes:
  "maybe_get_driver json k = Some (Inr (Some d)) \<Longrightarrow> decodes json d"
  by (auto simp: maybe_get_driver_def decodes_def new_Driver_def
      split: option.splits sum.splits prod.splits)

lemma collect_driver_decodes:
  "collect_driver json p found = Some (Inr found') \<Longrightarrow> \<forall>d\<in>set found. decodes json d \<Longrightarrow>
   \<forall>d\<in>set found'. decodes json d"
  by (auto simp: collect_driver_def split: option.splits sum.splits
      dest: maybe_get_driver_decodes)

lemma for_each_offset_invariant:
  assumes "\<And>p st st'. f p st = Some (Inr st') \<Longrightarrow> I st \<Longrightarrow> I st'"
  shows "for_each_offset f ps st = Some (Inr st') \<Longrightarrow> I st \<Longrightarrow> I st'"
proof (induction ps arbitrary: st)
  case Nil
  then show ?case by simp
next
  case (Cons p ps)
  from Cons.prems(1) obtain st1 where a: "f p st = Some (Inr st1)"
    and b: "for_each_offset f ps st1 = Some (Inr st')"
    by (auto split: option.splits sum.splits)
  from assms [OF a Cons.prems(2)] Cons.IH [OF b] show ?case by simp
qed

lemma get_driver_data_from_json_Inr:
  assumes "get_driver_data_from_json save_data = Some (Inr drivers)"
  shows "\<exists>team_id found.
           get_player_team_id save_data = Some (Inr team_id) \<and>
           for_each_employeer_team_ref save_data team_id (collect_driver save_data) []
             = Some (Inr found) \<and>
           length found = 3 \<and> drivers = sort_key car_id_file_offset found"
  using assms
  by (auto simp: get_driver_data_from_json_def split: option.splits sum.splits if_splits)

lemma set_driver_position_invariant:
  assumes inv: "drivers_invariant save_data drivers"
  shows "drivers_invariant save_data (set_driver_position i p drivers)"
proof (cases "i < length drivers")
  case False
  with inv show ?thesis by (simp add: set_driver_position_def list_update_beyond)
next
  case True
  let ?d = "(drivers ! i)\<lparr>position := p\<rparr>"
  have same: "car_id_file_offset ?d = car_id_file_offset (drivers ! i)"
    "original_position ?d = original_position (drivers ! i)"
    by simp_all
  have m: "map car_id_file_offset (drivers[i := ?d]) = map car_id_file_offset drivers"
    using True by (simp add: map_update list_update_same_conv)
  have mem: "drivers ! i \<in> set drivers" using True by simp
  have "\<forall>d\<in>set (drivers[i := ?d]).
      parse_driver_position save_data (car_id_file_offset d) = Inr (original_position d) \<and>
      token_at save_data (car_id_file_offset d) (original_position d)"
  proof
    fix d assume "d \<in> set (drivers[i := ?d])"
    then have "d = ?d \<or> d \<in> set drivers"
      using set_update_subset_insert [of drivers i ?d] by auto
    then show "parse_driver_position save_data (car_id_file_offset d) = Inr (original_position d) \<and>
      token_at save_data (car_id_file_offset d) (original_position d)"
      using inv mem same by (auto simp: drivers_invariant_def)
  qed
  with inv m show ?thesis
    by (simp add: drivers_invariant_def set_driver_position_def)
qed

subsection \<open>The loop over the back-references\<close>

lemma first_occurrence_filter:
  assumes "pattern \<noteq> []"
  shows "pos \<le> length json \<Longrightarrow>
    (case first_occurrence pattern (drop pos json) pos of
       None \<Rightarrow> filter (occurs_at json pattern) [pos..<length json] = []
     | Some p \<Rightarrow> pos \<le> p \<and> p < length json \<and>
         filter (occurs_at json pattern) [pos..<length json]
           = p # filter (occurs_at json pattern) [p + 1..<length json])"
proof (induction "length json - pos" arbitrary: pos)
  case 0
  then have "pos = length json" by simp
  with assms show ?case by simp
next
  case (Suc n)
  then have lt: "pos < length json" by simp
  then have d: "drop pos json = json ! pos # drop (pos + 1) json"
    by (simp add: Cons_nth_drop_Suc)
  have u: "[pos..<length json] = pos # [pos + 1..<length json]"
    using lt by (simp add: upt_conv_Cons)
  show ?case
  proof (cases "occurs_at json pattern pos")
    case True
    then have "first_occurrence pattern (drop pos json) pos = Some pos"
      unfolding d by (simp add: occurs_at_def d)
    with True lt u show ?thesis by simp
  next
    case False
    then have f: "first_occurrence pattern (drop pos json) pos
        = first_occurrence pattern (drop (pos + 1) json) (pos + 1)"
      unfolding d by (simp add: occurs_at_def d)
    have "n = length json - (pos + 1)" using Suc.hyps(2) by simp
    from Suc.hyps(1) [OF this] lt
    have "case first_occurrence pattern (drop (pos + 1) json) (pos + 1) of
       None \<Rightarrow> filter (occurs_at json pattern) [pos + 1..<length json] = []
     | Some p \<Rightarrow> pos + 1 \<le> p \<and> p < length json \<and>
         filter (occurs_at json pattern) [pos + 1..<length json]
           = p # filter (occurs_at json pattern) [p + 1..<length json]"
      by simp
    with False show ?thesis
      unfolding f u by (auto split: option.splits)
  qed
qed

lemma employeer_team_ref_offsets_filter:
  "pattern \<noteq> [] \<Longrightarrow>
   employeer_team_ref_offsets json pattern start
     = filter (occurs_at json pattern) [start..<length json]"
proof (induction json pattern start rule: employeer_team_ref_offsets.induct)
  case (1 json pattern start)
  note ne = "1.prems"
  show ?case
  proof (cases "start \<le> length json")
    case False
    then show ?thesis
      by (subst employeer_team_ref_offsets.simps) (simp add: find_from_def)
  next
    case True
    note fo = first_occurrence_filter [OF ne True]
    show ?thesis
    proof (cases "find_from json pattern start")
      case None
      with fo True show ?thesis
        by (subst employeer_team_ref_offsets.simps) (simp add: find_from_def)
    next
      case (Some p)
      with fo True have "filter (occurs_at json pattern) [start..<length json]
          = p # filter (occurs_at json pattern) [p + 1..<length json]"
        by (simp add: find_from_def)
      with "1.IH" [OF Some ne] Some show ?thesis
        by (subst employeer_team_ref_offsets.simps) simp
    qed
  qed
qed

lemma for_each_employeer_team_ref_occurrences:
  "for_each_employeer_team_ref json team_id f st
     = for_each_offset f (ref_occurrences json team_id) st"
  by (simp add: for_each_employeer_team_ref_def ref_occurrences_def
      employeer_team_ref_offsets_filter employeer_team_ref_str_def)

lemma ref_occurrences_code:
  "ref_occurrences json team_id
     = employeer_team_ref_offsets json (employeer_team_ref_str team_id) 0"
  by (simp add: ref_occurrences_def employeer_team_ref_offsets_filter employeer_team_ref_str_def)

lemma collect_driver_driver_at_ref:
  "collect_driver json p found =
     (case driver_at_ref json p of
        None \<Rightarrow> None
      | Some (Inl e) \<Rightarrow> Some (Inl e)
      | Some (Inr None) \<Rightarrow> Some (Inr found)
      | Some (Inr (Some d)) \<Rightarrow> Some (Inr (found @ [d])))"
  by (simp add: collect_driver_def driver_at_ref_def split: sum.splits option.splits)

lemma for_each_collect_complete:
  "\<forall>p\<in>set ps. \<exists>r. driver_at_ref json p = Some (Inr r) \<Longrightarrow>
   for_each_offset (collect_driver json) ps found = Some (Inr (found @ drivers_found json ps))"
proof (induction ps arbitrary: found)
  case Nil
  then show ?case by (simp add: drivers_found_def)
next
  case (Cons p ps)
  from Cons.prems obtain r where r: "driver_at_ref json p = Some (Inr r)" by auto
  from Cons.prems have rest: "\<forall>p\<in>set ps. \<exists>r. driver_at_ref json p = Some (Inr r)" by simp
  show ?case
  proof (cases r)
    case None
    with r Cons.IH [OF rest, of found] show ?thesis
      by (simp add: collect_driver_driver_at_ref drivers_found_def)
  next
    case (Some d)
    with r Cons.IH [OF rest, of "found @ [d]"] show ?thesis
      by (simp add: collect_driver_driver_at_ref drivers_found_def)
  qed
qed

subsection \<open>The example documents\<close>

lemma example_save_data_drivers:
  "get_driver_data_from_json example_save_data = Some (Inr example_save_drivers)"
  by code_simp

subsection \<open>The invariant of the driver records\<close>

text \<open>
  C9. After a successful extraction the three records satisfy the invariant: the offsets
  are ascending, and decoding the token at each record's offset yields the record's
  original position, so that the text there is \<^verbatim>\<open>-1\<close>, \<^verbatim>\<open>0\<close> or \<^verbatim>\<open>1\<close> followed by a
  comma or a closing brace. Every record starts with its position equal to its original
  position, and assigning any position to any record keeps the invariant, also after
  earlier assignments.
\<close>

theorem opened_drivers_invariant:
  assumes "get_driver_data_from_json save_data = Some (Inr drivers)"
  shows "drivers_invariant save_data drivers \<and>
         (\<forall>d\<in>set drivers. position d = original_position d) \<and>
         (\<forall>i p. drivers_invariant save_data (set_driver_position i p drivers)) \<and>
         (\<forall>edited i p. drivers_invariant save_data edited \<longrightarrow>
            drivers_invariant save_data (set_driver_position i p edited))"
proof -
  from get_driver_data_from_json_Inr [OF assms] obtain team_id found where
    run: "for_each_employeer_team_ref save_data team_id (collect_driver save_data) []
            = Some (Inr found)"
    and three: "length found = 3" and srt: "drivers = sort_key car_id_file_offset found"
    by blast
  have "\<forall>d\<in>set found. decodes save_data d"
    using run unfolding for_each_employeer_team_ref_def
    by (rule for_each_offset_invariant [rotated]) (auto dest: collect_driver_decodes)
  with srt have dec: "\<forall>d\<in>set drivers. decodes save_data d" by simp
  have len: "length drivers = 3" using three srt by simp
  have sorted: "sorted (map car_id_file_offset drivers)" using srt by simp
  have inv: "drivers_invariant save_data drivers"
    unfolding drivers_invariant_def
    using len sorted dec by (auto simp: decodes_def intro: parse_driver_position_token)
  from dec have start: "\<forall>d\<in>set drivers. position d = original_position d"
    by (simp add: decodes_def)
  from inv start set_driver_position_invariant show ?thesis
    by (intro conjI allI impI)
qed

theorem opened_drivers_invariant_witness:
  "get_driver_data_from_json example_save_data = Some (Inr example_save_drivers) \<and>
   map car_id_file_offset example_save_drivers = [59, 207, 220] \<and>
   parse_driver_position example_save_data 59 = Inr car1 \<and>
   parse_driver_position example_save_data 207 = Inr car2 \<and>
   parse_driver_position example_save_data 220 = Inr reserve \<and>
   map position (set_driver_position 0 reserve example_save_drivers) = [reserve, car2, reserve] \<and>
   parse_driver_position example_save_data
     (car_id_file_offset (set_driver_position 0 reserve example_save_drivers ! 0))
     = Inr (original_position (set_driver_position 0 reserve example_save_drivers ! 0))"
proof -
  note inv = opened_drivers_invariant [OF example_save_data_drivers]
  have opened: "drivers_invariant example_save_data example_save_drivers"
    by (rule conjunct1 [OF inv])
  have edited: "drivers_invariant example_save_data
                  (set_driver_position 0 reserve example_save_drivers)"
    by (rule inv [THEN conjunct2, THEN conjunct2, THEN conjunct1, rule_format])
  from opened have decoded:
    "parse_driver_position example_save_data 59 = Inr car1 \<and>
     parse_driver_position example_save_data 207 = Inr car2 \<and>
     parse_driver_position example_save_data 220 = Inr reserve"
    by (simp add: drivers_invariant_def example_save_drivers_def new_Driver_def)
  from edited have kept:
    "parse_driver_position example_save_data
       (car_id_file_offset (set_driver_position 0 reserve example_save_drivers ! 0))
       = Inr (original_position (set_driver_position 0 reserve example_save_drivers ! 0))"
    by (simp add: drivers_invariant_def set_driver_position_def example_save_drivers_def
        new_Driver_def)
  have edit: "map position (set_driver_position 0 reserve example_save_drivers)
                = [reserve, car2, reserve]"
    by (simp add: set_driver_position_def example_save_drivers_def new_Driver_def)
  have offsets: "map car_id_file_offset example_save_drivers = [59, 207, 220]"
    by (simp add: example_save_drivers_def new_Driver_def)
  from example_save_data_drivers offsets decoded edit kept show ?thesis
    by (intro conjI) (elim conjE, assumption)+
qed

section \<open>The navigator on compactly written JSON\<close>

subsection \<open>Strings\<close>

lemma render_JObject [simp]: "render (JObject ms) = CHR ''{'' # render_members ms @ ''}''"
  by (simp add: render.simps(3) render_members_def render_member_def [abs_def])

lemma compact_JObject: "compact_value (JObject ms) = compact_members ms"
  by (simp add: compact_members_def)

lemma fcq_loop_at_quote: "fcq_loop (a @ DQ # b) (length a) False = Inr (length a)"
  by (subst fcq_loop.simps) simp

lemma fcq_loop_string_body:
  "string_body s \<Longrightarrow> fcq_loop (a @ s @ DQ # b) (length a) False = Inr (length a + length s)"
proof (induction s arbitrary: a rule: string_body.induct)
  case 1
  show ?case using fcq_loop_at_quote [of a b] by simp
next
  case (2 c)
  then have c: "c \<noteq> BS" "c \<noteq> DQ" by simp_all
  have "fcq_loop (a @ [c] @ DQ # b) (length a) False
      = fcq_loop ((a @ [c]) @ DQ # b) (length (a @ [c])) False"
    using c by (subst fcq_loop.simps) simp
  also have "\<dots> = Inr (length (a @ [c]))"
    by (rule fcq_loop_at_quote)
  finally show ?case by simp
next
  case (3 c d cs)
  show ?case
  proof (cases "c = BS")
    case True
    with "3.prems" have body: "string_body cs" by simp
    have eq: "a @ (c # d # cs) @ DQ # b = (a @ [c, d]) @ cs @ DQ # b" by simp
    have "fcq_loop (a @ (c # d # cs) @ DQ # b) (length a) False
        = fcq_loop (a @ (c # d # cs) @ DQ # b) (length a + 1) True"
      using True by (subst fcq_loop.simps) simp
    also have "\<dots> = fcq_loop (a @ (c # d # cs) @ DQ # b) (length a + 2) False"
      by (subst fcq_loop.simps) (simp add: nth_append)
    also have "\<dots> = fcq_loop ((a @ [c, d]) @ cs @ DQ # b) (length (a @ [c, d])) False"
      by (simp only: eq) simp
    also have "\<dots> = Inr (length (a @ [c, d]) + length cs)"
      by (rule "3.IH"(1) [OF True body])
    finally show ?thesis by simp
  next
    case False
    with "3.prems" have c: "c \<noteq> DQ" and body: "string_body (d # cs)" by simp_all
    have eq: "a @ (c # d # cs) @ DQ # b = (a @ [c]) @ (d # cs) @ DQ # b" by simp
    have "fcq_loop (a @ (c # d # cs) @ DQ # b) (length a) False
        = fcq_loop (a @ (c # d # cs) @ DQ # b) (length a + 1) False"
      using False c by (subst fcq_loop.simps) simp
    also have "\<dots> = fcq_loop ((a @ [c]) @ (d # cs) @ DQ # b) (length (a @ [c])) False"
      by (simp only: eq) simp
    also have "\<dots> = Inr (length (a @ [c]) + length (d # cs))"
      by (rule "3.IH"(2) [OF False body])
    finally show ?thesis by simp
  qed
qed

lemma find_closing_quote_string:
  assumes "string_body s"
  shows "find_closing_quote (a @ DQ # s @ DQ # b) (length a) = Inr (length a + length s + 1)"
proof -
  have "fcq_loop ((a @ [DQ]) @ s @ DQ # b) (length (a @ [DQ])) False
      = Inr (length (a @ [DQ]) + length s)"
    by (rule fcq_loop_string_body [OF assms])
  then show ?thesis by (simp add: find_closing_quote_def)
qed

lemma rfind_opening_quote_string:
  assumes "string_body s" "a \<noteq> []" "last a \<noteq> BS"
  shows "rfind_opening_quote (a @ DQ # s @ DQ # b) (length a + length s + 1) = Inr (length a)"
proof -
  let ?json = "a @ DQ # s @ DQ # b"
  have nb: "?json ! (length a - 1) \<noteq> BS"
    using assms(2,3) by (simp add: nth_append last_conv_nth)
  show ?thesis
    by (rule string_roundtrip [OF find_closing_quote_string [OF assms(1)]])
      (use assms(2) nb in simp_all)
qed

subsection \<open>The brace walks\<close>

lemma skipped_forward:
  "skipped x \<Longrightarrow>
   fcb_loop (a @ x @ b) (length a) tos rest = fcb_loop (a @ x @ b) (length a + length x) tos rest"
  by (simp add: skipped_def)

lemma skipped_backward:
  "skipped x \<Longrightarrow> a \<noteq> [] \<Longrightarrow> last a \<noteq> BS \<Longrightarrow>
   rob_loop (a @ x @ b) (length a + length x - 1) tos rest
     = rob_loop (a @ x @ b) (length a - 1) tos rest"
  by (simp add: skipped_def)

lemma skipped_last: "skipped x \<Longrightarrow> x \<noteq> [] \<Longrightarrow> last x \<noteq> BS"
  by (simp add: skipped_def)

lemma skipped_Nil [simp]: "skipped []"
  by (simp add: skipped_def)

lemma skipped_append:
  assumes x: "skipped x" and y: "skipped y"
  shows "skipped (x @ y)"
  unfolding skipped_def
proof (intro conjI allI impI)
  fix a b tos rest
  have "fcb_loop (a @ x @ (y @ b)) (length a) tos rest
      = fcb_loop (a @ x @ (y @ b)) (length a + length x) tos rest"
    by (rule skipped_forward [OF x])
  also have "\<dots> = fcb_loop ((a @ x) @ y @ b) (length (a @ x)) tos rest" by simp
  also have "\<dots> = fcb_loop ((a @ x) @ y @ b) (length (a @ x) + length y) tos rest"
    by (rule skipped_forward [OF y])
  finally show "fcb_loop (a @ (x @ y) @ b) (length a) tos rest
      = fcb_loop (a @ (x @ y) @ b) (length a + length (x @ y)) tos rest"
    by (simp add: add.assoc)
next
  fix a b :: string and tos rest
  assume a: "a \<noteq> [] \<and> last a \<noteq> BS"
  then have "last (a @ x) \<noteq> BS"
    using skipped_last [OF x] by (cases "x = []") auto
  with a have ax: "a @ x \<noteq> []" "last (a @ x) \<noteq> BS"
    by simp_all
  have "rob_loop ((a @ x) @ y @ b) (length (a @ x) + length y - 1) tos rest
      = rob_loop ((a @ x) @ y @ b) (length (a @ x) - 1) tos rest"
    by (rule skipped_backward [OF y ax])
  also have "\<dots> = rob_loop (a @ x @ (y @ b)) (length a + length x - 1) tos rest" by simp
  also have "\<dots> = rob_loop (a @ x @ (y @ b)) (length a - 1) tos rest"
    using a by (intro skipped_backward [OF x]) simp_all
  finally show "rob_loop (a @ (x @ y) @ b) (length a + length (x @ y) - 1) tos rest
      = rob_loop (a @ (x @ y) @ b) (length a - 1) tos rest"
    by (simp add: add.assoc)
next
  assume "x @ y \<noteq> []"
  then show "last (x @ y) \<noteq> BS"
    using skipped_last [OF x] skipped_last [OF y] by (cases "y = []") simp_all
qed

lemma skipped_char:
  assumes "ordinary c"
  shows "skipped [c]"
  unfolding skipped_def
proof (intro conjI allI impI)
  fix a b tos rest
  show "fcb_loop (a @ [c] @ b) (length a) tos rest
      = fcb_loop (a @ [c] @ b) (length a + length [c]) tos rest"
    using assms by (subst fcb_loop.simps) (simp add: ordinary_def)
next
  fix a b :: string and tos rest
  assume "a \<noteq> [] \<and> last a \<noteq> BS"
  then show "rob_loop (a @ [c] @ b) (length a + length [c] - 1) tos rest
      = rob_loop (a @ [c] @ b) (length a - 1) tos rest"
    using assms by (subst rob_loop.simps) (simp add: ordinary_def)
next
  show "last [c] \<noteq> BS" using assms by (simp add: ordinary_def)
qed

lemma skipped_chars: "\<forall>c\<in>set x. ordinary c \<Longrightarrow> skipped x"
proof (induction x)
  case Nil
  show ?case by simp
next
  case (Cons c x)
  then have "skipped [c]" "skipped x" by (simp_all add: skipped_char)
  then have "skipped ([c] @ x)" by (rule skipped_append)
  then show ?case by simp
qed

lemma skipped_string:
  assumes "string_body s"
  shows "skipped (DQ # s @ [DQ])"
  unfolding skipped_def
proof (intro conjI allI impI)
  fix a b tos rest
  define json where "json = a @ DQ # s @ DQ # b"
  have eq: "a @ (DQ # s @ [DQ]) @ b = json" by (simp add: json_def)
  have q: "find_closing_quote json (length a) = Inr (length a + length s + 1)"
    unfolding json_def by (rule find_closing_quote_string [OF assms])
  have at: "json ! length a = DQ" "length a < length json" by (simp_all add: json_def)
  have "fcb_loop json (length a) tos rest = fcb_loop json (length a + length s + 2) tos rest"
    by (subst fcb_loop.simps) (simp add: q at)
  then show "fcb_loop (a @ (DQ # s @ [DQ]) @ b) (length a) tos rest
      = fcb_loop (a @ (DQ # s @ [DQ]) @ b) (length a + length (DQ # s @ [DQ])) tos rest"
    unfolding eq by simp
next
  fix a b :: string and tos rest
  assume a: "a \<noteq> [] \<and> last a \<noteq> BS"
  define json where "json = a @ DQ # s @ DQ # b"
  have eq: "a @ (DQ # s @ [DQ]) @ b = json" by (simp add: json_def)
  define i where "i = length a + length s + 1"
  have q: "rfind_opening_quote json i = Inr (length a)"
    unfolding json_def i_def using a by (intro rfind_opening_quote_string [OF assms]) simp_all
  have at: "json ! i = DQ"
    by (simp add: json_def i_def nth_append)
  have "rob_loop json i tos rest = rob_loop json (length a - 1) tos rest"
    using a by (subst rob_loop.simps) (simp add: at q)
  then have "rob_loop json (length a + length s + 1) tos rest
      = rob_loop json (length a - 1) tos rest"
    by (simp add: i_def)
  then show "rob_loop (a @ (DQ # s @ [DQ]) @ b) (length a + length (DQ # s @ [DQ]) - 1) tos rest
      = rob_loop (a @ (DQ # s @ [DQ]) @ b) (length a - 1) tos rest"
    unfolding eq by simp
next
  show "last (DQ # s @ [DQ]) \<noteq> BS" by simp
qed

lemma skipped_enclosed:
  assumes x: "skipped x"
    and braces: "opn = CHR ''{'' \<and> cls = CHR ''}'' \<or> opn = CHR ''['' \<and> cls = CHR '']''"
  shows "skipped (opn # x @ [cls])"
  unfolding skipped_def
proof (intro conjI allI impI)
  fix a b tos rest
  let ?json = "a @ (opn # x @ [cls]) @ b"
  have json: "?json = (a @ [opn]) @ x @ (cls # b)" by simp
  have "fcb_loop ?json (length a) tos rest = fcb_loop ?json (length a + 1) cls (tos # rest)"
    using braces by (subst fcb_loop.simps) auto
  also have "\<dots> = fcb_loop ((a @ [opn]) @ x @ (cls # b)) (length (a @ [opn])) cls (tos # rest)"
    by (simp only: json) simp
  also have "\<dots> = fcb_loop ((a @ [opn]) @ x @ (cls # b)) (length (a @ [opn]) + length x) cls
      (tos # rest)"
    by (rule skipped_forward [OF x])
  also have "\<dots> = fcb_loop ?json (length a + length x + 1) cls (tos # rest)"
    by (simp only: json) simp
  also have "\<dots> = fcb_loop ?json (length a + length x + 2) tos rest"
    using braces by (subst fcb_loop.simps) (auto simp: nth_append)
  finally show "fcb_loop ?json (length a) tos rest
      = fcb_loop ?json (length a + length (opn # x @ [cls])) tos rest"
    by simp
next
  fix a b :: string and tos rest
  assume a: "a \<noteq> [] \<and> last a \<noteq> BS"
  let ?json = "a @ (opn # x @ [cls]) @ b"
  have json: "?json = (a @ [opn]) @ x @ (cls # b)" by simp
  have opn: "opn \<noteq> BS" "opn = opener_of cls" using braces by auto
  have at: "?json ! (length a + length x + 1) = cls" by (simp add: nth_append)
  have "rob_loop ?json (length a + length x + 1) tos rest
      = rob_loop ?json (length a + length x) opn (tos # rest)"
    using braces by (subst rob_loop.simps) (simp only: at, auto)
  also have "\<dots> = rob_loop ((a @ [opn]) @ x @ (cls # b)) (length (a @ [opn]) + length x - 1) opn
      (tos # rest)"
    by (simp only: json) simp
  also have "\<dots> = rob_loop ((a @ [opn]) @ x @ (cls # b)) (length (a @ [opn]) - 1) opn (tos # rest)"
    using opn by (intro skipped_backward [OF x]) simp_all
  also have "\<dots> = rob_loop ?json (length a) opn (tos # rest)"
    by (simp only: json) simp
  also have "\<dots> = rob_loop ?json (length a - 1) tos rest"
    using braces a by (subst rob_loop.simps) auto
  finally show "rob_loop ?json (length a + length (opn # x @ [cls]) - 1) tos rest
      = rob_loop ?json (length a - 1) tos rest"
    by simp
next
  show "last (opn # x @ [cls]) \<noteq> BS" using braces by auto
qed

lemma skipped_separated: "\<forall>x\<in>set xs. skipped x \<Longrightarrow> skipped (separated xs)"
proof (induction xs rule: separated.induct)
  case 1
  show ?case by simp
next
  case (2 x)
  then show ?case by simp
next
  case (3 x y r)
  then have x: "skipped x" and r: "skipped (separated (y # r))" by simp_all
  have "skipped [CHR '','']" by (rule skipped_char) (simp add: ordinary_def)
  from skipped_append [OF x skipped_append [OF this r]] show ?case by simp
qed

lemma skipped_key:
  assumes "string_body k" "skipped v"
  shows "skipped (DQ # k @ [DQ, CHR '':''] @ v)"
proof -
  have "skipped [CHR '':'']" by (rule skipped_char) (simp add: ordinary_def)
  from skipped_append [OF skipped_string [OF assms(1)] skipped_append [OF this assms(2)]]
  show ?thesis by simp
qed

lemma skipped_render: "compact_value v \<Longrightarrow> skipped (render v)"
proof (induction v)
  case (JString s)
  then show ?case by (simp add: skipped_string)
next
  case (JAtom a)
  then have "\<forall>c\<in>set a. ordinary c" by (auto simp: atom_text_def ordinary_def)
  then show ?case by (simp add: skipped_chars)
next
  case (JObject ms)
  have "\<forall>x\<in>set (map (\<lambda>m. DQ # fst m @ [DQ, CHR '':''] @ render (snd m)) ms). skipped x"
  proof
    fix x
    assume "x \<in> set (map (\<lambda>m. DQ # fst m @ [DQ, CHR '':''] @ render (snd m)) ms)"
    then obtain m where m: "m \<in> set ms" and x: "x = DQ # fst m @ [DQ, CHR '':''] @ render (snd m)"
      by auto
    from m JObject.prems have k: "string_body (fst m)" and c: "compact_value (snd m)" by simp_all
    have "snd m \<in> Basic_BNFs.snds m" by (cases m) simp
    from JObject.IH [OF m this c] have "skipped (render (snd m))" .
    from skipped_key [OF k this] x show "skipped x" by simp
  qed
  from skipped_enclosed [OF skipped_separated [OF this], of "CHR ''{''" "CHR ''}''"]
  show ?case by (simp add: render.simps(3) del: render_JObject)
next
  case (JArray vs)
  have "\<forall>x\<in>set (map render vs). skipped x"
    using JArray by auto
  from skipped_enclosed [OF skipped_separated [OF this], of "CHR ''[''" "CHR '']''"]
  show ?case by simp
qed

lemma skipped_render_member:
  "string_body (fst m) \<Longrightarrow> compact_value (snd m) \<Longrightarrow> skipped (render_member m)"
  unfolding render_member_def by (intro skipped_key skipped_render)

lemma skipped_render_members: "compact_members ms \<Longrightarrow> skipped (render_members ms)"
  unfolding render_members_def compact_members_def
  by (intro skipped_separated) (auto intro: skipped_render_member)

lemma find_matching_brace_forward:
  assumes x: "skipped x"
    and braces: "opn = CHR ''{'' \<and> cls = CHR ''}'' \<or> opn = CHR ''['' \<and> cls = CHR '']''"
  shows "find_matching_brace (a @ opn # x @ cls # b) (length a) = Inr (length a + length x + 1)"
proof -
  define json where "json = a @ opn # x @ cls # b"
  have eq: "json = (a @ [opn]) @ x @ (cls # b)" by (simp add: json_def)
  have at: "json ! length a = opn" "length a + 1 < length json"
    by (simp_all add: json_def)
  have at2: "json ! (length a + length x + 1) = cls" "length a + length x + 1 < length json"
    by (simp_all add: json_def nth_append)
  have "fcb_loop json (length a + 1) cls [] = fcb_loop json (length a + 1 + length x) cls []"
    using skipped_forward [OF x, of "a @ [opn]" "cls # b" cls "[]"] by (simp add: eq)
  also have "\<dots> = Inr (length a + length x + 1)"
    using braces at2 by (subst fcb_loop.simps) (auto simp: add.commute add.left_commute)
  finally have "find_closing_brace json (length a + 1) cls = Inr (length a + length x + 1)"
    by (simp add: find_closing_brace_def)
  then have "find_matching_brace json (length a) = Inr (length a + length x + 1)"
    using braces at by (auto simp: find_matching_brace_def)
  then show ?thesis by (simp add: json_def)
qed

lemma find_matching_brace_backward:
  assumes x: "skipped x"
    and braces: "opn = CHR ''{'' \<and> cls = CHR ''}'' \<or> opn = CHR ''['' \<and> cls = CHR '']''"
  shows "find_matching_brace (a @ opn # x @ cls # b) (length a + length x + 1) = Inr (length a)"
proof -
  define json where "json = a @ opn # x @ cls # b"
  define i where "i = length a + length x + 1"
  have eq: "json = (a @ [opn]) @ x @ (cls # b)" by (simp add: json_def)
  have at: "json ! length a = opn" by (simp add: json_def)
  have at2: "json ! i = cls" "i \<noteq> 0"
    by (simp_all add: json_def i_def nth_append)
  have im: "i - 1 = length a + length x" by (simp add: i_def)
  have opn: "opn \<noteq> BS" using braces by auto
  have "rob_loop json (length (a @ [opn]) + length x - 1) opn []
      = rob_loop json (length (a @ [opn]) - 1) opn []"
    unfolding eq using opn by (intro skipped_backward [OF x]) simp_all
  then have "rob_loop json (length a + length x) opn [] = rob_loop json (length a) opn []"
    by simp
  also have "\<dots> = Inr (length a)"
    using braces at by (subst rob_loop.simps) auto
  finally have "rfind_opening_brace json (i - 1) opn = Inr (length a)"
    unfolding rfind_opening_brace_def im .
  then have "find_matching_brace json i = Inr (length a)"
    using braces at2 by (auto simp: find_matching_brace_def)
  then show ?thesis by (simp add: json_def i_def)
qed

subsection \<open>The values of the members\<close>

lemma scan_value_end_atom:
  assumes "\<forall>ch\<in>set t. ch \<noteq> CHR '','' \<and> ch \<noteq> CHR ''}''" "c = CHR '','' \<or> c = CHR ''}''"
  shows "scan_value_end (a @ t @ c # b) (length a) = Inr (length a + length t - 1)"
  using assms
proof (induction t arbitrary: a)
  case Nil
  then show ?case by (subst scan_value_end.simps) auto
next
  case (Cons h t)
  have "scan_value_end (a @ (h # t) @ c # b) (length a)
      = scan_value_end (a @ (h # t) @ c # b) (length a + 1)"
    using Cons.prems by (subst scan_value_end.simps) auto
  also have "\<dots> = scan_value_end ((a @ [h]) @ t @ c # b) (length (a @ [h]))" by simp
  also have "\<dots> = Inr (length (a @ [h]) + length t - 1)"
    using Cons.prems by (intro Cons.IH) simp_all
  finally show ?case by simp
qed

lemma scan_value_start_atom:
  assumes "\<forall>ch\<in>set t. ch \<noteq> CHR '':''"
  shows "scan_value_start (a @ CHR '':'' # t @ b) (length a + 1 + length t) = Inr (length a + 1)"
  using assms
proof (induction t arbitrary: b rule: rev_induct)
  case Nil
  show ?case by (subst scan_value_start.simps) simp
next
  case (snoc h t)
  have "scan_value_start (a @ CHR '':'' # (t @ [h]) @ b) (length a + 1 + length (t @ [h]))
      = scan_value_start (a @ CHR '':'' # (t @ [h]) @ b) (length a + 1 + length t)"
    using snoc.prems by (subst scan_value_start.simps) (simp add: nth_append nth_Cons')
  also have "\<dots> = scan_value_start (a @ CHR '':'' # t @ (h # b)) (length a + 1 + length t)" by simp
  also have "\<dots> = Inr (length a + 1)"
    using snoc.prems by (intro snoc.IH) simp
  finally show ?case .
qed

lemma render_nonempty: "compact_value v \<Longrightarrow> render v \<noteq> []"
  by (cases v) (simp_all add: atom_text_def)

lemma value_end_pos_render:
  assumes v: "compact_value v" and c: "c = CHR '','' \<or> c = CHR ''}''"
  shows "value_end_pos (a @ render v @ c # b) (length a) = Inr (length a + length (render v) - 1)"
proof (cases v)
  case (JString s)
  with v have "find_closing_quote (a @ DQ # s @ DQ # c # b) (length a)
      = Inr (length a + length s + 1)"
    by (intro find_closing_quote_string) simp
  with JString show ?thesis by (simp add: value_end_pos_def)
next
  case (JAtom t)
  with v obtain h t' where t: "t = h # t'" by (cases t) (auto simp: atom_text_def)
  from v JAtom t have h: "h \<noteq> DQ" "h \<noteq> CHR ''{''" "h \<noteq> CHR ''[''"
    and t': "\<forall>ch\<in>set t'. ch \<noteq> CHR '','' \<and> ch \<noteq> CHR ''}''"
    by (auto simp: atom_text_def)
  have "scan_value_end ((a @ [h]) @ t' @ c # b) (length (a @ [h]))
      = Inr (length (a @ [h]) + length t' - 1)"
    by (rule scan_value_end_atom [OF t' c])
  then have "scan_value_end (a @ h # t' @ c # b) (length a + 1) = Inr (length a + length t')"
    by simp
  with JAtom t h show ?thesis by (simp add: value_end_pos_def)
next
  case (JObject ms)
  with v have "skipped (render_members ms)"
    by (intro skipped_render_members) (simp add: compact_members_def)
  from find_matching_brace_forward [OF this, of "CHR ''{''" "CHR ''}''" a "c # b"] JObject
  show ?thesis by (simp add: value_end_pos_def render_JObject)
next
  case (JArray vs)
  with v have "skipped (separated (map render vs))"
    by (intro skipped_separated) (auto intro: skipped_render)
  from find_matching_brace_forward [OF this, of "CHR ''[''" "CHR '']''" a "c # b"] JArray
  show ?thesis by (simp add: value_end_pos_def)
qed

lemma value_start_pos_render:
  assumes v: "compact_value v"
  shows "value_start_pos (a @ CHR '':'' # render v @ c # b) (length a + 1 + length (render v))
     = Inr (length a + 1)"
proof (cases v)
  case (JString s)
  define json where "json = a @ CHR '':'' # render v @ c # b"
  define e where "e = length a + length (render v)"
  have eq: "json = (a @ [CHR '':'']) @ DQ # s @ DQ # c # b" by (simp add: json_def JString)
  have e: "e = length (a @ [CHR '':'']) + length s + 1" by (simp add: e_def JString)
  have at: "json ! e = DQ" unfolding eq e by (simp add: nth_append)
  from v JString have body: "string_body s" by simp
  have "rfind_opening_quote json e = Inr (length (a @ [CHR '':'']))"
    unfolding eq e by (rule rfind_opening_quote_string [OF body]) simp_all
  with at have "value_start_pos json (e + 1) = Inr (length a + 1)"
    by (simp add: value_start_pos_def)
  then show ?thesis by (simp add: json_def e_def)
next
  case (JAtom t)
  define json where "json = a @ CHR '':'' # render v @ c # b"
  define e where "e = length a + length (render v)"
  from v JAtom have tn: "t \<noteq> []" by (simp add: atom_text_def)
  then have t: "butlast t @ [last t] = t" by simp
  from v JAtom tn have l: "last t \<noteq> DQ" "last t \<noteq> CHR ''}''" "last t \<noteq> CHR '']''"
    by (auto simp: atom_text_def dest: last_in_set)
  from v JAtom have nc: "\<forall>ch\<in>set (butlast t). ch \<noteq> CHR '':''"
    by (auto simp: atom_text_def dest: in_set_butlastD)
  have "a @ CHR '':'' # (butlast t @ [last t]) @ c # b = a @ CHR '':'' # butlast t @ (last t # c # b)"
    by simp
  then have eq: "json = a @ CHR '':'' # butlast t @ (last t # c # b)"
    unfolding t by (simp add: json_def JAtom)
  have "length (butlast t @ [last t]) = length (butlast t) + 1" by simp
  then have e: "e = length a + 1 + length (butlast t)"
    unfolding t by (simp add: e_def JAtom)
  have at: "json ! e = last t" unfolding eq e by (simp add: nth_append)
  have "scan_value_start json (length a + 1 + length (butlast t)) = Inr (length a + 1)"
    unfolding eq by (rule scan_value_start_atom [OF nc])
  then have "scan_value_start json e = Inr (length a + 1)" by (simp add: e)
  with at l have "value_start_pos json (e + 1) = Inr (length a + 1)"
    by (simp add: value_start_pos_def)
  then show ?thesis by (simp add: json_def e_def)
next
  case (JObject ms)
  with v have "skipped (render_members ms)"
    by (intro skipped_render_members) (simp add: compact_members_def)
  from find_matching_brace_backward [OF this, of "CHR ''{''" "CHR ''}''" "a @ [CHR '':'']" "c # b"]
    JObject
  show ?thesis by (simp add: value_start_pos_def render_JObject nth_append)
next
  case (JArray vs)
  with v have "skipped (separated (map render vs))"
    by (intro skipped_separated) (auto intro: skipped_render)
  from find_matching_brace_backward [OF this, of "CHR ''[''" "CHR '']''" "a @ [CHR '':'']" "c # b"]
    JArray
  show ?thesis by (simp add: value_start_pos_def nth_append)
qed

lemma render_members_Nil [simp]: "render_members [] = []"
  by (simp add: render_members_def)

lemma render_members_Cons:
  "render_members (m # ms) = render_member m @ separator ms @ render_members ms"
  by (cases ms) (simp_all add: render_members_def separator_def)

lemma render_members_append:
  "ys \<noteq> [] \<Longrightarrow>
   render_members (xs @ ys) = render_members xs @ separator xs @ render_members ys"
proof (induction xs)
  case Nil
  show ?case by (simp add: separator_def)
next
  case (Cons x xs)
  then show ?case
    by (simp add: render_members_Cons) (simp add: separator_def)
qed

lemma member_values_append:
  "ys \<noteq> [] \<Longrightarrow>
   member_values i (xs @ ys) =
     member_values i xs
       @ member_values (i + length (render_members xs) + length (separator xs)) ys"
proof (induction xs arbitrary: i)
  case Nil
  show ?case by (simp add: separator_def)
next
  case (Cons x xs)
  have s: "separator (xs @ ys) = '',''" using Cons.prems by (simp add: separator_def)
  show ?case
  proof (cases "xs = []")
    case True
    then show ?thesis by (simp add: s render_members_Cons) (simp add: separator_def)
  next
    case False
    then have s': "separator xs = '',''" "separator (x # xs) = '',''"
      by (simp_all add: separator_def)
    show ?thesis
      using Cons.IH [OF Cons.prems, of "i + length (render_member x) + 1"]
      by (simp add: s s' render_members_Cons add.assoc)
  qed
qed

lemma member_values_snoc:
  "member_values i (ms @ [m]) =
     member_values i ms
       @ [(fst m, i + length (render_members ms) + length (separator ms) + length (fst m) + 3)]"
  by (simp add: member_values_append)

lemma visit_append:
  "visit callback json (xs @ ys) st =
     (case visit callback json xs st of
        Inl e \<Rightarrow> Inl e
      | Inr (continue, st') \<Rightarrow>
          if continue then visit callback json ys st' else Inr (False, st'))"
  by (induction xs arbitrary: st) (auto split: sum.splits)

subsection \<open>The enumeration of the members of an object\<close>

text \<open>
  Started at any key of a compactly written object, \<^verbatim>\<open>for_sibling_key_values_in_object\<close>
  calls the callback for that member and the members behind it, and then for the members
  before it, last to first.
\<close>

lemma sibling_keys_forward_members:
  assumes "compact_members ms"
  shows "sibling_keys_forward callback (a @ render_members ms @ CHR ''}'' # b) (length a) st
     = Some (visit callback (a @ render_members ms @ CHR ''}'' # b)
               (member_values (length a) ms) st)"
  using assms
proof (induction ms arbitrary: a st)
  case Nil
  show ?case by (subst sibling_keys_forward.simps) simp
next
  case (Cons m ms)
  obtain k v where m: "m = (k, v)" by (cases m)
  from Cons.prems m have k: "string_body k" and v: "compact_value v" and ms: "compact_members ms"
    by (simp_all add: compact_members_def)
  define c where "c = (if ms = [] then CHR ''}'' else CHR '','')"
  define tl where "tl = (if ms = [] then b else render_members ms @ CHR ''}'' # b)"
  define json where "json = a @ render_members (m # ms) @ CHR ''}'' # b"
  define ke where "ke = length a + length k + 1"
  define e where "e = ke + 1 + length (render v)"
  define nxt where "nxt = (if ms = [] then e + 1 else e + 2)"
  have c: "c = CHR '','' \<or> c = CHR ''}''" by (simp add: c_def)
  have j1: "json = a @ DQ # k @ DQ # (CHR '':'' # render v @ c # tl)"
    by (simp add: json_def render_members_Cons render_member_def m c_def tl_def separator_def)
  have j2: "json = (a @ DQ # k @ [DQ, CHR '':'']) @ render v @ c # tl"
    by (simp add: j1)
  have j3: "json = (a @ render_member m @ separator ms) @ render_members ms @ CHR ''}'' # b"
    by (simp add: json_def render_members_Cons)
  have rv: "render v \<noteq> []" by (rule render_nonempty [OF v])
  have len2: "length (a @ DQ # k @ [DQ, CHR '':'']) = ke + 2" by (simp add: ke_def)
  have len3: "length (a @ render_member m @ separator ms) = nxt"
    using rv by (simp add: nxt_def e_def ke_def render_member_def m separator_def)
  have q: "find_closing_quote json (length a) = Inr ke"
    unfolding j1 ke_def by (rule find_closing_quote_string [OF k])
  have "value_end_pos json (ke + 2) = Inr (ke + 2 + length (render v) - 1)"
    unfolding j2 len2 [symmetric] by (rule value_end_pos_render [OF v c])
  then have ve: "value_end_pos json (ke + 2) = Inr e"
    using rv by (simp add: e_def)
  have at0: "length a < length json" "json ! length a = DQ"
    by (simp_all add: j1)
  have at1: "ke + 2 < length json" "json ! (ke + 1) = CHR '':''"
    using rv by (simp_all add: j1 ke_def nth_append)
  have key: "string_view_between json (length a) ke = k"
    by (simp add: j1 ke_def string_view_between_def)
  have "json ! (length (a @ DQ # k @ [DQ, CHR '':'']) + length (render v)) = c"
    unfolding j2 by (simp only: nth_append_length_plus) simp
  then have at2: "json ! (e + 1) = c" "e + 1 < length json"
    by (simp_all add: e_def ke_def) (simp add: j2)
  have nxt: "nxt = (if c = CHR '','' then e + 2 else e + 1)"
    by (simp add: nxt_def c_def)
  have IH: "sibling_keys_forward callback json nxt st'
      = Some (visit callback json (member_values nxt ms) st')" for st'
    unfolding j3 len3 [symmetric] by (rule Cons.IH [OF ms])
  have step: "sibling_keys_forward callback json (length a) st =
      (case callback json k (ke + 2) st of
         Inl err \<Rightarrow> Some (Inl err)
       | Inr (continue, st') \<Rightarrow>
           if \<not> continue then Some (Inr (False, st'))
           else sibling_keys_forward callback json nxt st')"
    using at0 at1 at2 q key ve
    by (subst sibling_keys_forward.simps) (simp add: nxt split: sum.splits)
  have "length a + length (render_member m) + length (separator ms) = nxt"
    using len3 by simp
  then have mv: "member_values (length a) (m # ms) = (k, ke + 2) # member_values nxt ms"
    by (simp add: m ke_def)
  show ?case
    unfolding json_def [symmetric] mv step
    by (auto simp: IH split: sum.splits)
qed

lemma sibling_keys_backward_members:
  assumes "compact_members ms"
  shows "sibling_keys_backward callback (a @ CHR ''{'' # render_members ms @ separator ms @ b)
           (length a + length (render_members ms) + length (separator ms)) st
     = (case visit callback (a @ CHR ''{'' # render_members ms @ separator ms @ b)
               (rev (member_values (length a + 1) ms)) st of
          Inl e \<Rightarrow> Inl e
        | Inr (continue, st') \<Rightarrow> Inr st')"
  using assms
proof (induction ms arbitrary: b st rule: rev_induct)
  case Nil
  show ?case by (subst sibling_keys_backward.simps) (simp add: separator_def)
next
  case (snoc m ms)
  obtain k v where m: "m = (k, v)" by (cases m)
  from snoc.prems m have k: "string_body k" and v: "compact_value v" and ms: "compact_members ms"
    by (simp_all add: compact_members_def)
  define p where "p = a @ CHR ''{'' # render_members ms @ separator ms"
  define json where
    "json = a @ CHR ''{'' # render_members (ms @ [m]) @ separator (ms @ [m]) @ b"
  define ks where "ks = length p"
  define vs where "vs = ks + length k + 3"
  define i where "i = vs + length (render v)"
  have j1: "json = p @ DQ # k @ DQ # (CHR '':'' # render v @ CHR '','' # b)"
    by (simp add: json_def p_def render_members_append render_members_Cons render_member_def m)
      (simp add: separator_def)
  have j2: "json = (p @ DQ # k @ [DQ]) @ CHR '':'' # render v @ CHR '','' # b"
    by (simp add: j1)
  have j3: "json = a @ CHR ''{'' # render_members ms @ separator ms
                @ (render_member m @ CHR '','' # b)"
    by (simp add: j1 p_def render_member_def m)
  have rv: "render v \<noteq> []" by (rule render_nonempty [OF v])
  have pn: "p \<noteq> []" "last p \<noteq> BS"
    by (simp_all add: p_def separator_def)
  have ks: "ks \<noteq> 0" "ks - 1 = length a + length (render_members ms) + length (separator ms)"
    by (simp_all add: ks_def p_def)
  have len2: "length (p @ DQ # k @ [DQ]) + 1 = vs" by (simp add: vs_def ks_def)
  have i: "length a + length (render_members (ms @ [m])) + length (separator (ms @ [m])) = i"
    by (simp add: i_def vs_def ks_def p_def render_members_append render_members_Cons
        render_member_def m) (simp add: separator_def)
  have j4: "json = (p @ DQ # k @ DQ # CHR '':'' # render v) @ CHR '','' # b"
    by (simp add: j1)
  have li: "length (p @ DQ # k @ DQ # CHR '':'' # render v) = i"
    by (simp add: i_def vs_def ks_def)
  have "json ! i = CHR '',''"
    unfolding li [symmetric] j4 by (rule nth_append_length)
  then have ati: "json ! i = CHR '',''" "i \<noteq> 0"
    by (simp_all add: i_def vs_def)
  have "value_start_pos json (length (p @ DQ # k @ [DQ]) + 1 + length (render v))
      = Inr (length (p @ DQ # k @ [DQ]) + 1)"
    unfolding j2 by (rule value_start_pos_render [OF v])
  then have vsp: "value_start_pos json i = Inr vs"
    unfolding len2 i_def .
  have atv: "3 \<le> vs" "json ! (vs - 1) = CHR '':''" "json ! (vs - 2) = DQ"
    by (simp_all add: vs_def ks_def j1 nth_append)
  have "rfind_opening_quote json (length p + length k + 1) = Inr (length p)"
    unfolding j1 by (rule rfind_opening_quote_string [OF k pn])
  then have q: "rfind_opening_quote json (vs - 2) = Inr ks"
    by (simp add: vs_def ks_def)
  have key: "string_view_between json ks (vs - 2) = k"
    by (simp add: j1 vs_def ks_def string_view_between_def)
  have IH: "sibling_keys_backward callback json (ks - 1) st'
      = (case visit callback json (rev (member_values (length a + 1) ms)) st' of
           Inl e \<Rightarrow> Inl e
         | Inr (continue, st'') \<Rightarrow> Inr st'')" for st'
    unfolding j3 ks(2) by (rule snoc.IH [OF ms])
  have step: "sibling_keys_backward callback json i st =
      (case callback json k vs st of
         Inl err \<Rightarrow> Inl err
       | Inr (continue, st') \<Rightarrow>
           if \<not> continue then Inr st'
           else sibling_keys_backward callback json (ks - 1) st')"
    using ati atv ks(1)
    by (subst sibling_keys_backward.simps) (simp add: vsp q key split: sum.splits)
  have mv: "rev (member_values (length a + 1) (ms @ [m]))
      = (k, vs) # rev (member_values (length a + 1) ms)"
    by (simp add: member_values_snoc m vs_def ks_def p_def)
  show ?case
    unfolding json_def [symmetric] i mv step
    by (auto simp: IH [simplified] split: sum.splits)
qed

lemma for_sibling_key_values_in_object_members:
  assumes "compact_members (before @ m # after)"
  shows "for_sibling_key_values_in_object (a @ render (JObject (before @ m # after)) @ b)
           (length a + 1 + length (render_members before) + length (separator before))
           callback st
     = Some (case visit callback (a @ render (JObject (before @ m # after)) @ b)
                    (member_values
                       (length a + 1 + length (render_members before) + length (separator before))
                       (m # after)
                     @ rev (member_values (length a + 1) before)) st of
               Inl e \<Rightarrow> Inl e
             | Inr (continue, st') \<Rightarrow> Inr st')"
proof -
  define json where "json = a @ render (JObject (before @ m # after)) @ b"
  define k0 where
    "k0 = length a + 1 + length (render_members before) + length (separator before)"
  from assms have cb: "compact_members before" and ca: "compact_members (m # after)"
    by (simp_all add: compact_members_def)
  have j1: "json = (a @ CHR ''{'' # render_members before @ separator before)
                @ render_members (m # after) @ CHR ''}'' # b"
    by (simp add: json_def render_members_append)
  have j2: "json = a @ CHR ''{'' # render_members before @ separator before
                @ (render_members (m # after) @ CHR ''}'' # b)"
    by (simp add: j1)
  have len: "length (a @ CHR ''{'' # render_members before @ separator before) = k0"
    by (simp add: k0_def)
  have k0: "k0 - 1 = length a + length (render_members before) + length (separator before)"
    by (simp add: k0_def)
  have fwd: "sibling_keys_forward callback json k0 st
      = Some (visit callback json (member_values k0 (m # after)) st)"
    unfolding j1 len [symmetric] by (rule sibling_keys_forward_members [OF ca])
  have bwd: "sibling_keys_backward callback json (k0 - 1) st'
      = (case visit callback json (rev (member_values (length a + 1) before)) st' of
           Inl e \<Rightarrow> Inl e
         | Inr (continue, st'') \<Rightarrow> Inr st'')" for st'
    unfolding j2 k0 by (rule sibling_keys_backward_members [OF cb])
  have "for_sibling_key_values_in_object json k0 callback st
      = Some (case visit callback json
                     (member_values k0 (m # after) @ rev (member_values (length a + 1) before)) st of
                Inl e \<Rightarrow> Inl e
              | Inr (continue, st') \<Rightarrow> Inr st')"
    unfolding for_sibling_key_values_in_object_def fwd visit_append
    by (auto simp: bwd [simplified] split: sum.splits)
  then show ?thesis
    unfolding json_def k0_def .
qed

section \<open>What the extraction collects\<close>

subsection \<open>The fields of one object\<close>

lemma driver_fields_callback_update:
  assumes "fst kv = ''mFirstName'' \<or> fst kv = ''mLastName'' \<longrightarrow>
           (\<exists>s. parse_driver_name_string json (snd kv) = Inr s)"
  shows "driver_fields_callback json (fst kv) (snd kv) st =
           Inr (\<not> driver_fields_complete (update_fields json kv st), update_fields json kv st)"
  using assms
  by (cases st) (auto simp: driver_fields_callback_def update_fields_def name_at_def)

lemma fields_after_Cons:
  assumes "fst kv \<notin> fst ` set L"
  shows "fields_after json (kv # L) st = fields_after json L (update_fields json kv st)"
proof -
  from assms have none: "map_of L (fst kv) = None"
    by (simp add: map_of_eq_None_iff)
  obtain k off where kv: "kv = (k, off)" by (cases kv)
  obtain c f l where st: "st = (c, f, l)" by (cases st)
  show ?thesis
    using none by (auto simp: fields_after_def update_fields_def kv st)
qed

lemma fields_after_complete:
  assumes "fields_fresh L st" "driver_fields_complete st"
  shows "fields_after json L st = st"
proof -
  obtain c f l where st: "st = (c, f, l)" by (cases st)
  from assms st have "map_of L ''mCarID'' = None" "map_of L ''mFirstName'' = None"
    "map_of L ''mLastName'' = None"
    by (auto simp: fields_fresh_def driver_fields_complete_def map_of_eq_None_iff)
  then show ?thesis by (simp add: fields_after_def st)
qed

lemma fields_fresh_update:
  assumes "fields_fresh (kv # L) st" "fst kv \<notin> fst ` set L"
  shows "fields_fresh L (update_fields json kv st)"
proof -
  obtain c f l where st: "st = (c, f, l)" by (cases st)
  have "\<forall>b. (fst kv, b) \<notin> set L"
  proof (intro allI notI)
    fix b
    assume "(fst kv, b) \<in> set L"
    then have "fst (fst kv, b) \<in> fst ` set L" by (rule imageI)
    with assms(2) show False by simp
  qed
  with assms(1) show ?thesis
    by (auto simp: fields_fresh_def update_fields_def st)
qed

lemma visit_driver_fields:
  assumes "distinct (map fst L)" "names_parse json L" "fields_fresh L st"
  shows "\<exists>flag. visit driver_fields_callback json L st = Inr (flag, fields_after json L st)"
  using assms
proof (induction L arbitrary: st)
  case Nil
  show ?case by (cases st) (auto simp: fields_after_def)
next
  case (Cons kv L)
  from Cons.prems(1) have fresh: "fst kv \<notin> fst ` set L" and dist: "distinct (map fst L)"
    by simp_all
  from Cons.prems(2) have np: "names_parse json L"
    and this_one: "fst kv = ''mFirstName'' \<or> fst kv = ''mLastName'' \<longrightarrow>
           (\<exists>s. parse_driver_name_string json (snd kv) = Inr s)"
    by (simp_all add: names_parse_def)
  let ?st = "update_fields json kv st"
  have ff: "fields_fresh L ?st"
    by (rule fields_fresh_update [OF Cons.prems(3) fresh])
  have cb: "driver_fields_callback json (fst kv) (snd kv) st =
      Inr (\<not> driver_fields_complete ?st, ?st)"
    by (rule driver_fields_callback_update [OF this_one])
  have eq: "fields_after json (kv # L) st = fields_after json L ?st"
    by (rule fields_after_Cons [OF fresh])
  show ?case
  proof (cases "driver_fields_complete ?st")
    case True
    with cb have "visit driver_fields_callback json (kv # L) st = Inr (False, ?st)"
      by simp
    with fields_after_complete [OF ff True, of json] eq show ?thesis by auto
  next
    case False
    with cb have "visit driver_fields_callback json (kv # L) st
        = visit driver_fields_callback json L ?st"
      by simp
    with Cons.IH [OF dist np ff] eq show ?thesis by auto
  qed
qed

lemma map_fst_member_values: "map fst (member_values i ms) = map fst ms"
  by (induction ms arbitrary: i) simp_all

lemma parse_driver_name_string_render:
  assumes "compact_value v"
  shows "parse_driver_name_string (a @ render v @ b) (length a)
     = (case v of JString s \<Rightarrow> Inr s | _ \<Rightarrow> Inl InvalidDriverName)"
proof (cases v)
  case (JString s)
  with assms have "find_closing_quote (a @ DQ # s @ DQ # b) (length a)
      = Inr (length a + length s + 1)"
    by (intro find_closing_quote_string) simp
  with JString show ?thesis
    by (simp add: parse_driver_name_string_def string_view_between_def)
next
  case (JAtom t)
  with assms obtain h t' where "t = h # t'" "h \<noteq> DQ"
    by (cases t) (auto simp: atom_text_def)
  with JAtom show ?thesis by (simp add: parse_driver_name_string_def)
next
  case (JObject ms)
  then show ?thesis by (simp add: parse_driver_name_string_def)
next
  case (JArray vs)
  then show ?thesis by (simp add: parse_driver_name_string_def)
qed

lemma parse_driver_position_token_text:
  assumes "position_of_token tok = Some p" "c = CHR '','' \<or> c = CHR ''}''" "b \<noteq> []"
  shows "parse_driver_position (a @ tok @ c # b) (length a) = Inr p"
proof -
  from assms(3) obtain d b' where b: "b = d # b'" by (cases b) auto
  from assms(1) consider "tok = ''-1''" "p = reserve" | "tok = ''0''" "p = car1"
    | "tok = ''1''" "p = car2"
    by (auto split: if_splits)
  then show ?thesis
  proof cases
    case 1
    with assms(2) show ?thesis
      by (auto simp: parse_driver_position_def nth_append b)
  next
    case 2
    with assms(2) show ?thesis
      by (auto simp: parse_driver_position_def nth_append b)
  next
    case 3
    with assms(2) show ?thesis
      by (auto simp: parse_driver_position_def nth_append b)
  qed
qed

lemma member_value_at:
  assumes "c = CHR '','' \<or> c = CHR ''}''" "t \<noteq> []"
  shows "case map_of ms key of
           None \<Rightarrow> map_of (member_values (length a) ms) key = None
         | Some v \<Rightarrow>
             (\<exists>a' c' b'. map_of (member_values (length a) ms) key = Some (length a') \<and>
                a @ render_members ms @ c # t = a' @ render v @ c' # b' \<and>
                (c' = CHR '','' \<or> c' = CHR ''}'') \<and> b' \<noteq> [])"
proof (induction ms arbitrary: a)
  case Nil
  show ?case by simp
next
  case (Cons m ms)
  obtain k v where m: "m = (k, v)" by (cases m)
  show ?case
  proof (cases "k = key")
    case True
    define a' where "a' = a @ DQ # k @ [DQ, CHR '':'']"
    define c' where "c' = (if ms = [] then c else CHR '','')"
    define b' where "b' = (if ms = [] then t else render_members ms @ c # t)"
    have "a @ render_members (m # ms) @ c # t = a' @ render v @ c' # b'"
      by (simp add: render_members_Cons render_member_def m a'_def c'_def b'_def separator_def)
    moreover have "map_of (member_values (length a) (m # ms)) key = Some (length a')"
      using True by (simp add: m a'_def)
    moreover have "(c' = CHR '','' \<or> c' = CHR ''}'') \<and> b' \<noteq> []"
      using assms by (simp add: c'_def b'_def)
    ultimately show ?thesis
      using True by (simp only: m map_of.simps fst_conv snd_conv fun_upd_same option.case) blast
  next
    case False
    have eq: "a @ render_members (m # ms) @ c # t
        = (a @ render_member m @ separator ms) @ render_members ms @ c # t"
      by (simp add: render_members_Cons)
    have len: "length a + length (render_member m) + length (separator ms)
        = length (a @ render_member m @ separator ms)"
      by simp
    have mo: "map_of (m # ms) key = map_of ms key"
      using False by (simp add: m)
    have mv: "map_of (member_values (length a) (m # ms)) key
        = map_of (member_values (length (a @ render_member m @ separator ms)) ms) key"
      using False by (simp add: m add.assoc)
    show ?thesis
      unfolding eq mo mv by (rule Cons.IH)
  qed
qed

lemma maybe_get_driver_object:
  assumes ms: "ms = before @ m # after"
    and cm: "compact_members ms" and dist: "distinct (map fst ms)"
    and ok: "fields_ok ms" and post: "post \<noteq> []"
  shows "maybe_get_driver (pre @ render (JObject ms) @ post)
           (length pre + 1 + length (render_members before) + length (separator before))
     = Some (Inr (object_driver (length pre + 1) ms))"
proof -
  define json where "json = pre @ render (JObject ms) @ post"
  define i0 where "i0 = length pre + 1"
  define k0 where "k0 = length pre + 1 + length (render_members before) + length (separator before)"
  define L where "L = member_values k0 (m # after) @ rev (member_values i0 before)"
  define MV where "MV = member_values i0 ms"
  have json': "json = (pre @ ''{'') @ render_members ms @ CHR ''}'' # post"
    by (simp add: json_def)
  have len: "length (pre @ ''{'') = length pre + 1" by simp
  have MV: "MV = member_values i0 before @ member_values k0 (m # after)"
    unfolding MV_def ms k0_def i0_def by (subst member_values_append) (simp_all add: add.assoc)
  have dMV: "distinct (map fst MV)"
    using dist by (simp add: MV_def map_fst_member_values)
  then have dL: "distinct (map fst L)"
    unfolding MV L_def by (auto simp: rev_map [symmetric])
  have "set L = set MV" unfolding MV L_def by auto
  with dL dMV have mapof: "map_of L = map_of MV"
    by (simp add: map_of_inject_set)
  have val: "case map_of ms key of
           None \<Rightarrow> map_of MV key = None
         | Some v \<Rightarrow>
             (\<exists>a' c' b'. map_of MV key = Some (length a') \<and>
                json = a' @ render v @ c' # b' \<and>
                (c' = CHR '','' \<or> c' = CHR ''}'') \<and> b' \<noteq> [])" for key
    unfolding MV_def i0_def json' len [symmetric]
    by (rule member_value_at [OF _ post]) simp
  have member_compact: "compact_value v" if "map_of ms key = Some v" for key v
    using map_of_SomeD [OF that] cm by (auto simp: compact_members_def)
  have name: "(case map_of MV K of None \<Rightarrow> None | Some off \<Rightarrow> Some (name_at json off))
      = string_member ms K \<and>
      (\<forall>off. map_of MV K = Some off \<longrightarrow> (\<exists>s. parse_driver_name_string json off = Inr s))"
    if K: "K = ''mFirstName'' \<or> K = ''mLastName''" for K
  proof (cases "map_of ms K")
    case None
    with val [of K] show ?thesis by (simp add: string_member_def)
  next
    case (Some v)
    with val [of K] obtain a' c' b' where off: "map_of MV K = Some (length a')"
      and j: "json = a' @ render v @ c' # b'"
      by auto
    from ok K Some obtain s where v: "v = JString s"
      by (auto simp: fields_ok_def string_member_def split: jvalue.splits)
    have "parse_driver_name_string json (length a') = Inr s"
      unfolding j using parse_driver_name_string_render [OF member_compact [OF Some], of a' "c' # b'"]
      by (simp add: v)
    with off Some v show ?thesis
      by (simp add: string_member_def name_at_def)
  qed
  have np: "names_parse json L"
    unfolding names_parse_def
  proof (intro ballI impI)
    fix kv
    assume kv: "kv \<in> set L" and K: "fst kv = ''mFirstName'' \<or> fst kv = ''mLastName''"
    from kv dL have "map_of L (fst kv) = Some (snd kv)" by simp
    then have "map_of MV (fst kv) = Some (snd kv)" by (simp add: mapof)
    with name [OF K] show "\<exists>s. parse_driver_name_string json (snd kv) = Inr s" by blast
  qed
  have fresh: "fields_fresh L (None, None, None)" by (simp add: fields_fresh_def)
  from visit_driver_fields [OF dL np fresh] obtain flag where
    v: "visit driver_fields_callback json L (None, None, None)
        = Inr (flag, fields_after json L (None, None, None))"
    by blast
  have fa: "fields_after json L (None, None, None)
      = (map_of MV ''mCarID'', string_member ms ''mFirstName'', string_member ms ''mLastName'')"
    using name [of "''mFirstName''"] name [of "''mLastName''"]
    by (simp add: fields_after_def mapof split: option.splits)
  from cm have cm': "compact_members (before @ m # after)" by (simp add: ms)
  have "for_sibling_key_values_in_object json k0 driver_fields_callback (None, None, None)
      = Some (case visit driver_fields_callback json L (None, None, None) of
                Inl e \<Rightarrow> Inl e
              | Inr (continue, st') \<Rightarrow> Inr st')"
    unfolding json_def k0_def L_def i0_def ms
    by (rule for_sibling_key_values_in_object_members [OF cm'])
  then have trav: "for_sibling_key_values_in_object json k0 driver_fields_callback (None, None, None)
      = Some (Inr (map_of MV ''mCarID'', string_member ms ''mFirstName'',
                   string_member ms ''mLastName''))"
    unfolding v fa by simp
  have car: "case map_of ms ''mCarID'' of
      None \<Rightarrow> map_of MV ''mCarID'' = None \<and> car_member ms = None
    | Some cv \<Rightarrow> (\<exists>off p. map_of MV ''mCarID'' = Some off \<and> car_member ms = Some p \<and>
          parse_driver_position json off = Inr p)"
  proof (cases "map_of ms ''mCarID''")
    case None
    with val [of "''mCarID''"] show ?thesis by (simp add: car_member_def)
  next
    case (Some cv)
    with val [of "''mCarID''"] obtain a' c' b' where off: "map_of MV ''mCarID'' = Some (length a')"
      and j: "json = a' @ render cv @ c' # b'"
      and c': "c' = CHR '','' \<or> c' = CHR ''}''" and b': "b' \<noteq> []"
      by auto
    from ok Some obtain tok p where cv: "cv = JAtom tok" and p: "position_of_token tok = Some p"
      by (auto simp: fields_ok_def car_member_def split: jvalue.splits)
    have "parse_driver_position json (length a') = Inr p"
      unfolding j cv using parse_driver_position_token_text [OF p c' b', of a'] by simp
    with off Some cv p show ?thesis by (simp add: car_member_def)
  qed
  have "maybe_get_driver json k0 = Some (Inr (object_driver i0 ms))"
  proof (cases "map_of ms ''mCarID''")
    case None
    with car show ?thesis
      by (simp add: maybe_get_driver_def trav object_driver_def)
  next
    case (Some cv)
    with car obtain off p where "map_of MV ''mCarID'' = Some off" "car_member ms = Some p"
      "parse_driver_position json off = Inr p"
      by auto
    then show ?thesis
      by (simp add: maybe_get_driver_def trav object_driver_def MV_def [symmetric]
          split: option.splits)
  qed
  then show ?thesis by (simp add: json_def k0_def i0_def)
qed

subsection \<open>The object around an occurrence\<close>

lemma rfind_opening_brace_members:
  assumes "skipped x"
  shows "rfind_opening_brace (a @ CHR ''{'' # x @ b) (length a + length x) CHR ''{'' = Inr (length a)"
proof -
  define json where "json = a @ CHR ''{'' # x @ b"
  have eq: "json = (a @ ''{'') @ x @ b" by (simp add: json_def)
  have at: "json ! length a = CHR ''{''" by (simp add: json_def)
  have "rob_loop json (length (a @ ''{'') + length x - 1) CHR ''{'' []
      = rob_loop json (length (a @ ''{'') - 1) CHR ''{'' []"
    unfolding eq by (intro skipped_backward [OF assms]) simp_all
  then have "rob_loop json (length a + length x) CHR ''{'' [] = rob_loop json (length a) CHR ''{'' []"
    by simp
  also have "\<dots> = Inr (length a)"
    using at by (subst rob_loop.simps) simp
  finally show ?thesis
    by (simp add: rfind_opening_brace_def json_def)
qed

lemma skipped_separator [simp]: "skipped (separator ms)"
  by (auto simp: separator_def intro!: skipped_chars simp: ordinary_def)

lemma length_contract_key [simp]: "length contract_key = 11"
  by (simp add: contract_key_def)

lemma render_ref_member: "render_member (ref_member team_id) = employeer_team_ref_str team_id"
  by (simp add: ref_member_def render_member_def employeer_team_ref_str_def render_members_def)

lemma render_contract_member:
  "render_member (contract_member team_id inner_before inner_after) =
     contract_key @ CHR ''{'' # render_members inner_before @ separator inner_before
       @ render_member (ref_member team_id) @ separator inner_after
       @ render_members inner_after @ ''}''"
  by (simp add: contract_member_def render_member_def contract_key_def render_members_append
      render_members_Cons)

lemma find_contract_in_contract:
  assumes "compact_members inner_before"
  shows "find_employeer_team_ref_contract_offset
           (site_text team_id (In_contract pre before inner_before inner_after after post))
           (site_offset (In_contract pre before inner_before inner_after after post))
     = Inr (Some (length pre + 1 + length (render_members before) + length (separator before)))"
proof -
  define x where "x = render_members inner_before @ separator inner_before"
  define A where
    "A = pre @ CHR ''{'' # render_members before @ separator before @ contract_key"
  define B where
    "B = render_member (ref_member team_id) @ separator inner_after
           @ render_members inner_after @ ''}'' @ separator after @ render_members after
           @ ''}'' @ post"
  define json where
    "json = site_text team_id (In_contract pre before inner_before inner_after after post)"
  define p where "p = site_offset (In_contract pre before inner_before inner_after after post)"
  define k0 where
    "k0 = length pre + 1 + length (render_members before) + length (separator before)"
  have json: "json = A @ CHR ''{'' # x @ B"
    by (simp add: json_def A_def B_def x_def render_members_append render_members_Cons
        render_contract_member)
  have lenA: "length A = k0 + 11" by (simp add: A_def k0_def)
  have p: "p \<noteq> 0" "p - 1 = length A + length x"
    by (simp_all add: p_def A_def x_def)
  have x: "skipped x"
    unfolding x_def by (intro skipped_append skipped_render_members assms skipped_separator)
  have brace: "rfind_opening_brace json (p - 1) CHR ''{'' = Inr (k0 + 11)"
    unfolding p(2) json lenA [symmetric] by (rule rfind_opening_brace_members [OF x])
  have "take 11 (drop k0 A) = contract_key"
    by (simp add: A_def k0_def)
  then have key: "take 11 (drop k0 json) = contract_key"
    using lenA by (simp add: json)
  have "0 < k0" by (simp add: k0_def)
  then have "find_employeer_team_ref_contract_offset json p = Inr (Some k0)"
    using p(1) brace key by (simp add: find_employeer_team_ref_contract_offset_def)
  then show ?thesis by (simp add: json_def p_def k0_def)
qed

lemma find_contract_elsewhere:
  assumes "compact_members inner_before"
    and "drop (length pre - length contract_key) pre \<noteq> contract_key"
  shows "find_employeer_team_ref_contract_offset
           (site_text team_id (Elsewhere pre inner_before rest))
           (site_offset (Elsewhere pre inner_before rest))
     = Inr None"
proof -
  define x where "x = render_members inner_before @ separator inner_before"
  define json where "json = site_text team_id (Elsewhere pre inner_before rest)"
  define p where "p = site_offset (Elsewhere pre inner_before rest)"
  have json: "json = pre @ CHR ''{'' # x @ (render_member (ref_member team_id) @ rest)"
    by (simp add: json_def x_def)
  have p: "p \<noteq> 0" "p - 1 = length pre + length x"
    by (simp_all add: p_def x_def)
  have x: "skipped x"
    unfolding x_def by (intro skipped_append skipped_render_members assms skipped_separator)
  have brace: "rfind_opening_brace json (p - 1) CHR ''{'' = Inr (length pre)"
    unfolding p(2) json by (rule rfind_opening_brace_members [OF x])
  have key: "take 11 (drop (length pre - 11) json) \<noteq> contract_key" if "11 < length pre"
    using assms(2) that by (simp add: json)
  have "find_employeer_team_ref_contract_offset json p = Inr None"
    using p(1) brace key by (simp add: find_employeer_team_ref_contract_offset_def)
  then show ?thesis by (simp add: json_def p_def)
qed

lemma driver_at_ref_site:
  assumes "site_at json team_id p s"
  shows "driver_at_ref json p = Some (Inr (site_driver team_id s))"
proof (cases s)
  case (In_contract pre before inner_before inner_after after post)
  let ?ms = "before @ contract_member team_id inner_before inner_after # after"
  from assms In_contract have json: "json = site_text team_id s" and p: "p = site_offset s"
    and cm: "compact_members ?ms" and dist: "distinct (map fst ?ms)"
    and ok: "fields_ok ?ms" and post: "post \<noteq> []"
    by (simp_all add: site_at_def)
  from cm have "compact_members inner_before"
    by (auto simp: compact_members_def contract_member_def)
  from find_contract_in_contract [OF this, of team_id pre before inner_after after post]
  have c: "find_employeer_team_ref_contract_offset json p
      = Inr (Some (length pre + 1 + length (render_members before) + length (separator before)))"
    by (simp only: json p In_contract)
  have "maybe_get_driver json
          (length pre + 1 + length (render_members before) + length (separator before))
      = Some (Inr (object_driver (length pre + 1) ?ms))"
    unfolding json In_contract site_text.simps
    by (rule maybe_get_driver_object [OF refl cm dist ok post])
  with c show ?thesis
    by (simp add: driver_at_ref_def In_contract)
next
  case (Elsewhere pre inner_before rest)
  with assms have "find_employeer_team_ref_contract_offset json p = Inr None"
    using find_contract_elsewhere [of inner_before pre team_id rest]
    by (simp add: site_at_def)
  with Elsewhere show ?thesis by (simp add: driver_at_ref_def)
qed

lemma drivers_found_sites:
  "list_all2 (site_at json team_id) ps sites \<Longrightarrow>
   drivers_found json ps = site_drivers team_id sites \<and>
   (\<forall>p\<in>set ps. \<exists>r. driver_at_ref json p = Some (Inr r))"
proof (induction rule: list_all2_induct)
  case Nil
  show ?case by (simp add: drivers_found_def site_drivers_def)
next
  case (Cons p ps s sites)
  from driver_at_ref_site [OF Cons.hyps(1)] Cons.IH show ?case
    by (auto simp: drivers_found_def site_drivers_def split: option.splits)
qed

subsection \<open>The example documents\<close>

lemma nested_save_data_player_team:
  "get_player_team_id nested_save_data = Some (Inr ''7'')"
  by code_simp

lemma nested_save_data_refs:
  "ref_occurrences nested_save_data ''7'' = [107, 175, 309, 387, 438]"
  unfolding ref_occurrences_code by code_simp

lemma nested_save_data_sites:
  "list_all2 (site_at nested_save_data ''7'') [107, 175, 309, 387, 438] nested_sites"
  by code_simp

lemma nested_save_data_site_drivers:
  "site_drivers ''7'' nested_sites = nested_save_drivers"
  by code_simp

lemma spaced_save_data_player_team:
  "get_player_team_id spaced_save_data = Some (Inr ''7'')"
  by code_simp

lemma spaced_save_data_refs:
  "ref_occurrences spaced_save_data ''7'' = [45, 135, 224]"
  unfolding ref_occurrences_code by code_simp

lemma spaced_save_data_contract:
  "find_employeer_team_ref_contract_offset spaced_save_data 45 = Inr (Some 33)"
  by code_simp

lemma spaced_save_data_skipped:
  "maybe_get_driver spaced_save_data 33 = Some (Inr None)"
  by code_simp

lemma spaced_save_data_result:
  "get_driver_data_from_json spaced_save_data = Some (Inl DriverCountMismatch)"
  by code_simp

lemma invalid_position_data_player_team:
  "get_player_team_id invalid_position_data = Some (Inr ''7'')"
  by code_simp

lemma invalid_position_data_refs:
  "ref_occurrences invalid_position_data ''7'' = [89]"
  unfolding ref_occurrences_code by code_simp

lemma invalid_position_data_result:
  "get_driver_data_from_json invalid_position_data = Some (Inl InvalidPositionValue)"
  by code_simp

subsection \<open>The records of a compactly written document\<close>

text \<open>
  C4, as the code has it. Let the player team be found, and let every occurrence of its
  back-reference be described by a site: a member of a compactly written \<^verbatim>\<open>contract\<close>
  object inside a compactly written object with distinct keys, on which the scan does not
  throw, or a member of an object that is not the value of a key \<^verbatim>\<open>contract\<close>. Then the
  extraction collects, in the order of the occurrences, one record for each contract whose
  surrounding object has the car identifier, a first name and a last name; it ignores the
  occurrences outside of a contract and the contracts whose surrounding object lacks one of
  the three fields. It fails with \<open>DriverCountMismatch\<close> unless exactly three records are
  collected, and otherwise returns these three records sorted by the offset of their car
  identifier.
\<close>

theorem get_driver_data_from_json_sites:
  assumes "get_player_team_id save_data = Some (Inr team_id)"
    and "list_all2 (site_at save_data team_id) (ref_occurrences save_data team_id) sites"
  shows "get_driver_data_from_json save_data =
           (if length (site_drivers team_id sites) = 3
            then Some (Inr (sort_key car_id_file_offset (site_drivers team_id sites)))
            else Some (Inl DriverCountMismatch)) \<and>
         (\<forall>drivers. get_driver_data_from_json save_data = Some (Inr drivers) \<longrightarrow>
            length drivers = 3 \<and> sorted (map car_id_file_offset drivers) \<and>
            set drivers = set (site_drivers team_id sites))"
proof -
  from drivers_found_sites [OF assms(2)]
  have found: "drivers_found save_data (ref_occurrences save_data team_id)
      = site_drivers team_id sites"
    and complete: "\<forall>p\<in>set (ref_occurrences save_data team_id).
      \<exists>r. driver_at_ref save_data p = Some (Inr r)"
    by simp_all
  from for_each_collect_complete [OF complete, of "[]"] found
  have "for_each_offset (collect_driver save_data) (ref_occurrences save_data team_id) []
      = Some (Inr (site_drivers team_id sites))"
    by simp
  with assms(1) have result: "get_driver_data_from_json save_data =
      (if length (site_drivers team_id sites) = 3
       then Some (Inr (sort_key car_id_file_offset (site_drivers team_id sites)))
       else Some (Inl DriverCountMismatch))"
    by (simp add: get_driver_data_from_json_def for_each_employeer_team_ref_occurrences)
  have "length drivers = 3 \<and> sorted (map car_id_file_offset drivers) \<and>
      set drivers = set (site_drivers team_id sites)"
    if "get_driver_data_from_json save_data = Some (Inr drivers)" for drivers
  proof -
    from that result have three: "length (site_drivers team_id sites) = 3"
      and drivers: "drivers = sort_key car_id_file_offset (site_drivers team_id sites)"
      by (simp_all split: if_splits)
    from three show ?thesis unfolding drivers by simp
  qed
  with result show ?thesis by blast
qed

theorem get_driver_data_from_json_sites_witness:
  "get_player_team_id nested_save_data = Some (Inr ''7'') \<and>
   ref_occurrences nested_save_data ''7'' = [107, 175, 309, 387, 438] \<and>
   site_drivers ''7'' nested_sites = nested_save_drivers \<and>
   get_driver_data_from_json nested_save_data = Some (Inr nested_save_drivers)"
proof -
  have sites: "list_all2 (site_at nested_save_data ''7'') (ref_occurrences nested_save_data ''7'')
      nested_sites"
    unfolding nested_save_data_refs by (rule nested_save_data_sites)
  have sorted: "sort_key car_id_file_offset nested_save_drivers = nested_save_drivers"
    by (simp add: nested_save_drivers_def new_Driver_def)
  have "get_driver_data_from_json nested_save_data = Some (Inr nested_save_drivers)"
    using get_driver_data_from_json_sites [OF nested_save_data_player_team sites, THEN conjunct1]
    by (simp add: nested_save_data_site_drivers sorted) (simp add: nested_save_drivers_def)
  with nested_save_data_player_team nested_save_data_refs nested_save_data_site_drivers
  show ?thesis by (intro conjI)
qed

text \<open>
  Neither precondition can be dropped. In \<open>spaced_save_data\<close> each of the three contracts
  lies in an object with all three fields, but a space follows the comma behind the first
  contract: the walk over the siblings ends there without an error, the object yields no
  record, and the extraction fails with \<open>DriverCountMismatch\<close>. In \<open>invalid_position_data\<close>
  the scan throws \<open>InvalidPositionValue\<close> before the records are counted.
\<close>

theorem get_driver_data_from_json_sites_counterexample:
  "get_player_team_id spaced_save_data = Some (Inr ''7'') \<and>
   ref_occurrences spaced_save_data ''7'' = [45, 135, 224] \<and>
   find_employeer_team_ref_contract_offset spaced_save_data 45 = Inr (Some 33) \<and>
   maybe_get_driver spaced_save_data 33 = Some (Inr None) \<and>
   get_driver_data_from_json spaced_save_data = Some (Inl DriverCountMismatch) \<and>
   get_player_team_id invalid_position_data = Some (Inr ''7'') \<and>
   ref_occurrences invalid_position_data ''7'' = [89] \<and>
   get_driver_data_from_json invalid_position_data = Some (Inl InvalidPositionValue)"
  using spaced_save_data_player_team spaced_save_data_refs spaced_save_data_contract
    spaced_save_data_skipped spaced_save_data_result invalid_position_data_player_team
    invalid_position_data_refs invalid_position_data_result
  by (intro conjI)

end
